theory Spec2Isabelle
  imports Complex_Main
begin

section \<open>Enclosures\<close>

text \<open>
  Modelled from the spec: the enclosure number type (Sage's ball fields, an external
  dependency of the repository).  An enclosure is a midpoint and a radius; it stands for
  the closed interval of all reals within \<open>rad\<close> of \<open>mid\<close>.  The arithmetic is the
  midpoint-radius arithmetic without rounding: every operation returns an enclosure of all
  results of the operation on members of its arguments.  Only real balls are modelled.
\<close>

datatype ball = Ball (mid: real) (rad: real)

definition contains :: "real \<Rightarrow> ball \<Rightarrow> bool" where
  "contains x b \<longleftrightarrow> \<bar>x - mid b\<bar> \<le> rad b"

definition bzero :: ball where "bzero = Ball 0 0"
definition bone :: ball where "bone = Ball 1 0"

definition badd :: "ball \<Rightarrow> ball \<Rightarrow> ball" where
  "badd x y = Ball (mid x + mid y) (rad x + rad y)"

definition bsub :: "ball \<Rightarrow> ball \<Rightarrow> ball" where
  "bsub x y = Ball (mid x - mid y) (rad x + rad y)"

definition bmul :: "ball \<Rightarrow> ball \<Rightarrow> ball" where
  "bmul x y = Ball (mid x * mid y) (\<bar>mid x\<bar> * rad y + \<bar>mid y\<bar> * rad x + rad x * rad y)"

text \<open>The reciprocal of a ball that excludes zero: the interval between the reciprocals
  of its end points.  (On a ball containing zero the library returns a non-finite ball;
  the echelon engine only ever divides by a ball that passed \<open>is_nonzero\<close>.)\<close>

definition binv :: "ball \<Rightarrow> ball" where
  "binv y = Ball (mid y / (mid y * mid y - rad y * rad y))
                 (rad y / (mid y * mid y - rad y * rad y))"

definition bdiv :: "ball \<Rightarrow> ball \<Rightarrow> ball" where
  "bdiv x y = bmul x (binv y)"

definition is_nonzero :: "ball \<Rightarrow> bool" where
  "is_nonzero x \<longleftrightarrow> rad x < \<bar>mid x\<bar>"

definition contains_zero :: "ball \<Rightarrow> bool" where
  "contains_zero x \<longleftrightarrow> \<bar>mid x\<bar> \<le> rad x"

definition below_abs :: "ball \<Rightarrow> real" where
  "below_abs x = max 0 (\<bar>mid x\<bar> - rad x)"


definition bsum :: "ball list \<Rightarrow> ball" where
  "bsum xs = foldl badd bzero xs"

section \<open>Matrices and vectors of enclosures\<close>

type_synonym bvec = "ball list"
type_synonym bmat = "ball list list"

definition nrows :: "'a list list \<Rightarrow> nat" where
  "nrows A = length A"

definition ncols :: "'a list list \<Rightarrow> nat" where
  "ncols A = (case A of [] \<Rightarrow> 0 | r # _ \<Rightarrow> length r)"

definition is_mat :: "nat \<Rightarrow> nat \<Rightarrow> 'a list list \<Rightarrow> bool" where
  "is_mat m n A \<longleftrightarrow> length A = m \<and> (\<forall>r \<in> set A. length r = n)"

definition identity_matrix :: "nat \<Rightarrow> bmat" where
  "identity_matrix m = map (\<lambda>i. map (\<lambda>k. if i = k then bone else bzero) [0..<m]) [0..<m]"

definition column :: "'a list list \<Rightarrow> nat \<Rightarrow> 'a list" where
  "column A j = map (\<lambda>row. row ! j) A"

definition bdot :: "bvec \<Rightarrow> bvec \<Rightarrow> ball" where
  "bdot u v = bsum (map (\<lambda>k. bmul (u ! k) (v ! k)) [0..<length u])"

definition mat_vec :: "bmat \<Rightarrow> bvec \<Rightarrow> bvec" where
  "mat_vec A v = map (\<lambda>row. bdot row v) A"

definition mat_mul :: "bmat \<Rightarrow> bmat \<Rightarrow> bmat" where
  "mat_mul A B = map (\<lambda>row. map (\<lambda>j. bdot row (column B j)) [0..<ncols B]) A"

text \<open>Modelled from the spec: the determinant enclosure of a ball matrix (the library's
  \<open>det\<close>), here by expansion along the first row in ball arithmetic.\<close>

definition del_col :: "nat \<Rightarrow> 'a list \<Rightarrow> 'a list" where
  "del_col k r = take k r @ drop (Suc k) r"

fun bdet :: "bmat \<Rightarrow> ball" where
  "bdet [] = bone"
| "bdet (r # rs) =
     bsum (map (\<lambda>k. bmul (if even k then r ! k else bsub bzero (r ! k))
                          (bdet (map (del_col k) rs))) [0..<length r])"

section \<open>The echelon engine\<close>

datatype error =
  PrecisionError | IndexError | TypeError | AttributeError | ValueError | ZeroDivisionError

text \<open>A pivot dictionary, in insertion order: the pairs (column, row).\<close>

type_synonym pivots = "(nat \<times> nat) list"

text \<open>Python's \<open>max(iterable, key=..., default=None)\<close>: the first element of greatest key.\<close>

fun max_key :: "('a \<Rightarrow> real) \<Rightarrow> 'a list \<Rightarrow> 'a option" where
  "max_key key [] = None"
| "max_key key (x # xs) = Some (fold (\<lambda>y best. if key best < key y then y else best) xs x)"

text \<open>\<open>T[i] = [T[i,k] - c*T[s,k] for k in range(m)]\<close>\<close>

definition row_elim :: "nat \<Rightarrow> ball \<Rightarrow> nat \<Rightarrow> nat \<Rightarrow> bmat \<Rightarrow> bmat" where
  "row_elim m c s i T = T[i := map (\<lambda>k. bsub (T ! i ! k) (bmul c (T ! s ! k))) [0..<m]]"

text \<open>The first loop of \<open>REF\<close>: the rows from \<open>r\<close> on are cleared against the pivots
  already known.\<close>

definition replay_pivot :: "bmat \<Rightarrow> nat \<Rightarrow> nat \<Rightarrow> nat \<times> nat \<Rightarrow> bmat \<Rightarrow> bmat" where
  "replay_pivot mat m r jp T =
     (let col = mat_vec T (column mat (fst jp))
      in fold (\<lambda>i T. row_elim m (col ! i) (snd jp) i T) [r..<m] T)"

fun replay :: "bmat \<Rightarrow> nat \<Rightarrow> nat \<Rightarrow> nat \<Rightarrow> pivots \<Rightarrow> bmat \<Rightarrow> error + bmat" where
  "replay mat m n r [] T = Inr T"
| "replay mat m n r (jp # ps) T =
     (if n \<le> fst jp then Inl IndexError
      else if r < m \<and> m \<le> snd jp then Inl IndexError
      else replay mat m n r ps (replay_pivot mat m r jp T))"

text \<open>The body of the second loop, for one column \<open>j\<close>.\<close>

definition find_pivot :: "nat \<Rightarrow> nat \<Rightarrow> bvec \<Rightarrow> nat option" where
  "find_pivot r m col =
     max_key (\<lambda>l. below_abs (col ! l)) (filter (\<lambda>l. is_nonzero (col ! l)) [r..<m])"

definition pivot_step :: "bmat \<Rightarrow> nat \<Rightarrow> nat \<Rightarrow> bmat \<times> pivots \<Rightarrow> bmat \<times> pivots" where
  "pivot_step mat m j Tp =
     (let T = fst Tp; p = snd Tp in
      if j \<in> fst ` set p then (T, p)
      else
        let r = length p; col = mat_vec T (column mat j) in
        case find_pivot r m col of
          None \<Rightarrow> (T, p)
        | Some i \<Rightarrow>
            let p1 = p @ [(j, r)];
                T1 = T[i := T ! r, r := T ! i];
                col1 = col[i := col ! r, r := col ! i];
                T2 = T1[r := map (\<lambda>k. bdiv (T1 ! r ! k) (col1 ! r)) [0..<m]];
                T3 = fold (\<lambda>l T. row_elim m (col1 ! l) r l T) [r + 1..<m] T2
            in (T3, p1))"

text \<open>The elimination proper: both loops, returning the transformation and the pivots.\<close>

definition REF_elim :: "bmat \<Rightarrow> pivots \<Rightarrow> error + (bmat \<times> pivots)" where
  "REF_elim mat prec_pivots =
     (let m = nrows mat; n = ncols mat; p = prec_pivots; r = length p in
      case replay mat m n r p (identity_matrix m) of
        Inl e \<Rightarrow> Inl e
      | Inr T \<Rightarrow> Inr (fold (pivot_step mat m) [0..<n] (T, p)))"

text \<open>\<open>R[p[j],j] = 1\<close> and \<open>R[i,j] = 0\<close> for the rows below.\<close>

definition set_entry :: "nat \<Rightarrow> nat \<Rightarrow> 'a \<Rightarrow> 'a list list \<Rightarrow> 'a list list" where
  "set_entry i j v R = R[i := (R ! i)[j := v]]"

definition set_pivot :: "nat \<Rightarrow> nat \<times> nat \<Rightarrow> bmat \<Rightarrow> bmat" where
  "set_pivot m jp R =
     fold (\<lambda>i R. set_entry i (fst jp) bzero R) [snd jp + 1..<m] (set_entry (snd jp) (fst jp) bone R)"

definition REF ::
  "bmat \<Rightarrow> bool \<Rightarrow> bool \<Rightarrow> pivots \<Rightarrow> error + (bmat \<times> bmat option \<times> pivots option)" where
  "REF mat transformation pivots prec_pivots =
     (case REF_elim mat prec_pivots of
        Inl e \<Rightarrow> Inl e
      | Inr (T, p) \<Rightarrow>
          if \<exists>jp \<in> set p. nrows mat \<le> snd jp then Inl IndexError
          else
            let R = fold (set_pivot (nrows mat)) p (mat_mul T mat) in
            if transformation then
              if contains_zero (bdet T) then Inl PrecisionError
              else Inr (R, Some T, if pivots then Some p else None)
            else Inr (R, None, if pivots then Some p else None))"

section \<open>Subspace generation\<close>

text \<open>Scalar multiple, sum and zero of ball matrices, as used for the transition
  operators.\<close>

definition smul :: "ball \<Rightarrow> bmat \<Rightarrow> bmat" where
  "smul c A = map (map (bmul c)) A"

definition madd :: "bmat \<Rightarrow> bmat \<Rightarrow> bmat" where
  "madd A B =
     map (\<lambda>i. map (\<lambda>k. badd (A ! i ! k) (B ! i ! k)) [0..<length (A ! i)]) [0..<length A]"

definition zero_matrix :: "nat \<Rightarrow> bmat" where
  "zero_matrix n = replicate n (replicate n bzero)"

definition msum :: "nat \<Rightarrow> bmat list \<Rightarrow> bmat" where
  "msum n Ms = foldl madd (zero_matrix n) Ms"

text \<open>
  The loop of \<open>orbit\<close>.  The state is the echelon basis \<open>b\<close>, the transition operators
  \<open>T\<close> (kept only when \<open>transition\<close> is set), the pivots \<open>p\<close>, their number \<open>r\<close>
  and the indices \<open>new\<close> of the rows added in the last round.  Stacking the empty list of
  rows (an empty family) under a basis with columns is refused by the matrix library.
\<close>

function orbit_loop ::
  "bmat list \<Rightarrow> nat \<Rightarrow> bool \<Rightarrow> bmat \<Rightarrow> bmat list \<Rightarrow> pivots \<Rightarrow> nat \<Rightarrow> nat list
     \<Rightarrow> error + (bvec list \<times> bmat list)" where
  "orbit_loop Mats n transition b T p r new =
     (if new \<noteq> [] \<and> r < n then
        if Mats = [] then Inl TypeError
        else
          let b1 = b @ concat (map (\<lambda>mat. map (\<lambda>i. mat_vec mat (b ! i)) new) Mats);
              T1 = (if transition
                    then T @ concat (map (\<lambda>mat. map (\<lambda>i. mat_mul mat (T ! i)) new) Mats)
                    else T)
          in (case REF b1 transition True p of
                Inl e \<Rightarrow> Inl e
              | Inr (R, S, None) \<Rightarrow> Inl TypeError
              | Inr (R, S, Some p') \<Rightarrow>
                  (let new' = [r..<length p'];
                       b2 = take (length p') R;
                       T2 = (case S of
                               None \<Rightarrow> T1
                             | Some S \<Rightarrow>
                                 take r T1 @
                                 map (\<lambda>i. msum n (map (\<lambda>j. smul (S ! i ! j) (T1 ! j))
                                                      [0..<length T1])) new')
                   in orbit_loop Mats n transition b2 T2 p' (length p') new'))
      else Inr (b, T))"
  by pat_completeness auto
termination
  by (relation "measure (\<lambda>(Mats, n, transition, b, T, p, r, new).
                  if new = [] \<or> n \<le> r then 0 else 1 + (n - r))") auto

text \<open>
  \<open>orbit\<close> itself.  The seed is a vector with at least one entry, and \<open>matrix(vec)\<close>
  is the matrix whose one row is the seed.  On the empty vector the first call of \<open>REF\<close>
  does not return: its determinant test \<open>T.det().contains_zero()\<close> raises
  \<open>AttributeError\<close>.
\<close>

definition orbit :: "bmat list \<Rightarrow> bvec \<Rightarrow> bool \<Rightarrow> error + (bvec list \<times> bmat list option)" where
  "orbit Mats vec transition =
     (let n = length vec in
      if n = 0 then Inl AttributeError
      else
        case REF [vec] True True [] of
          Inl e \<Rightarrow> Inl e
        | Inr (b, Some S, Some p) \<Rightarrow>
            (let T = (if transition then [smul (S ! 0 ! 0) (identity_matrix n)] else []) in
             if length p = 0 then Inr ([], if transition then Some [] else None)
             else (case orbit_loop Mats n transition b T p 1 [0..<1] of
                     Inl e \<Rightarrow> Inl e
                   | Inr (b', T') \<Rightarrow> Inr (b', if transition then Some T' else None)))
        | Inr _ \<Rightarrow> Inl TypeError)"

text \<open>\<open>matrix(n, v)\<close>: the n-by-n matrix whose rows are the consecutive segments of \<open>v\<close>;
  \<open>mat.list()\<close> is \<open>concat\<close>.\<close>

definition unflatten :: "nat \<Rightarrow> 'a list \<Rightarrow> 'a list list" where
  "unflatten n v = map (\<lambda>i. map (\<lambda>k. v ! (i * n + k)) [0..<n]) [0..<n]"

function ga_loop :: "nat \<Rightarrow> bmat \<Rightarrow> pivots \<Rightarrow> nat \<Rightarrow> nat list \<Rightarrow> error + bvec list" where
  "ga_loop n b p r new =
     (if new \<noteq> [] \<and> r < n ^ 2 then
        let b1 = b @ concat (map (\<lambda>i. map (\<lambda>j.
                       concat (mat_mul (unflatten n (b ! i)) (unflatten n (b ! j)))) new) [0..<r])
        in (case REF b1 False True p of
              Inl e \<Rightarrow> Inl e
            | Inr (R, S, None) \<Rightarrow> Inl TypeError
            | Inr (R, S, Some p') \<Rightarrow>
                ga_loop n (take (length p') R) p' (length p') [r..<length p'])
      else Inr b)"
  by pat_completeness auto
termination
  by (relation "measure (\<lambda>(n, b, p, r, new).
                  if new = [] \<or> n ^ 2 \<le> r then 0 else 1 + (n ^ 2 - r))") auto

definition generated_algebra :: "bmat list \<Rightarrow> error + bvec list" where
  "generated_algebra Mats =
     (case Mats of
        [] \<Rightarrow> Inl IndexError
      | mat # _ \<Rightarrow>
          (let n = nrows mat in
           (case REF (map concat Mats) False True [] of
              Inl e \<Rightarrow> Inl e
            | Inr (b, S, None) \<Rightarrow> Inl TypeError
            | Inr (b, S, Some p) \<Rightarrow>
                (let r = length p in ga_loop n (take r b) p r [0..<r]))))"

section \<open>Concrete inputs\<close>

text \<open>An anti-diagonal matrix whose two nonzero entries are known to one half: every
  matrix it contains is invertible, yet interval arithmetic loses the sign of the
  determinant of the transformation.\<close>

definition wide2 :: bmat where
  "wide2 = [[Ball 0 0, Ball 1 (1/2)], [Ball 1 (1/2), Ball 0 0]]"

definition wide2_T :: bmat where
  "wide2_T = [[Ball 0 0, Ball (4/3) (2/3)], [Ball (4/3) (2/3), Ball 0 0]]"

text \<open>A 3-by-3 matrix with one uncertain entry.  Its second column is not certified
  nonzero below the first pivot, although no matrix it contains has a second column that
  vanishes there.\<close>

definition skew3 :: bmat where
  "skew3 = [[Ball 1 0, Ball 0 1, Ball 0 0],
            [Ball (-1) 0, Ball 1 0, Ball 1 0],
            [Ball 1 0, Ball 1 0, Ball (-1) 0]]"
text \<open>The transformation after the first column, the final one, the product, the
  result and the pivots; then the same for a second run on the result.\<close>

definition skew3_T1 :: bmat where
  "skew3_T1 = [[Ball 1 0, Ball 0 0, Ball 0 0],
               [Ball 1 0, Ball 1 0, Ball 0 0],
               [Ball (-1) 0, Ball 0 0, Ball 1 0]]"
definition skew3_T :: bmat where
  "skew3_T = [[Ball 1 0, Ball 0 0, Ball 0 0],
              [Ball 1 0, Ball 1 0, Ball 0 0],
              [Ball 0 0, Ball 1 0, Ball 1 0]]"
definition skew3_TM :: bmat where
  "skew3_TM = [[Ball 1 0, Ball 0 1, Ball 0 0],
              [Ball 0 0, Ball 1 1, Ball 1 0],
              [Ball 0 0, Ball 2 0, Ball 0 0]]"
definition skew3_R :: bmat where
  "skew3_R = [[Ball 1 0, Ball 0 1, Ball 0 0],
              [Ball 0 0, Ball 1 1, Ball 1 0],
              [Ball 0 0, Ball 2 0, Ball 0 0]]"
definition skew3_p0 :: pivots where "skew3_p0 = [(0, 0)]"
definition skew3_p :: pivots where "skew3_p = [(0, 0), (2, 1)]"
definition skew3_T' :: bmat where
  "skew3_T' = [[Ball 1 0, Ball 0 0, Ball 0 0],
              [Ball 0 0, Ball 1 0, Ball 0 0],
              [Ball 0 0, Ball 0 0, Ball (1/2) 0]]"
definition skew3_R' :: bmat where
  "skew3_R' = [[Ball 1 0, Ball 0 1, Ball 0 0],
              [Ball 0 0, Ball 1 1, Ball 1 0],
              [Ball 0 0, Ball 1 0, Ball 0 0]]"
definition skew3_p' :: pivots where "skew3_p' = [(0, 0), (2, 1), (1, 2)]"

text \<open>A vector of enclosures certifies the zero vector when every entry is the exact
  ball 0: then 0 is the only vector it contains.\<close>

definition certified_zero_vec :: "bvec \<Rightarrow> bool" where
  "certified_zero_vec v \<longleftrightarrow> (\<forall>x \<in> set v. mid x = 0 \<and> rad x = 0)"

section \<open>Real matrices and membership\<close>

text \<open>The true values: real vectors and matrices, membership in a vector or matrix of
  enclosures, and the real counterparts of the operations.  A real matrix is invertible
  when its determinant, expanded along the first row, is not zero.\<close>

type_synonym rvec = "real list"
type_synonym rmat = "real list list"

definition vcontains :: "rvec \<Rightarrow> bvec \<Rightarrow> bool" where
  "vcontains x v \<longleftrightarrow> list_all2 contains x v"

definition mcontains :: "rmat \<Rightarrow> bmat \<Rightarrow> bool" where
  "mcontains A M \<longleftrightarrow> list_all2 vcontains A M"

definition rdot :: "rvec \<Rightarrow> rvec \<Rightarrow> real" where
  "rdot u v = sum_list (map (\<lambda>k. u ! k * v ! k) [0..<length u])"

definition rmat_vec :: "rmat \<Rightarrow> rvec \<Rightarrow> rvec" where
  "rmat_vec A v = map (\<lambda>row. rdot row v) A"

definition rmat_mul :: "rmat \<Rightarrow> rmat \<Rightarrow> rmat" where
  "rmat_mul A B = map (\<lambda>row. map (\<lambda>j. rdot row (column B j)) [0..<ncols B]) A"

fun rdet :: "rmat \<Rightarrow> real" where
  "rdet [] = 1"
| "rdet (r # rs) =
     sum_list (map (\<lambda>k. (if even k then r ! k else 0 - r ! k) * rdet (map (del_col k) rs))
                   [0..<length r])"

definition invertible :: "rmat \<Rightarrow> bool" where
  "invertible A \<longleftrightarrow> rdet A \<noteq> 0"

text \<open>The invariant of the elimination, for a real matrix \<open>A\<close> contained in the input:
  the pivots are numbered in order of discovery, and some real transformation contained in
  \<open>T\<close> makes the pivot columns of the product exact; its first \<open>r0\<close> rows are unit
  rows.\<close>

definition unit_row :: "nat \<Rightarrow> nat \<Rightarrow> rvec" where
  "unit_row m i = map (\<lambda>k. if i = k then 1 else 0) [0..<m]"

definition pivots_wf :: "nat \<Rightarrow> nat \<Rightarrow> pivots \<Rightarrow> bool" where
  "pivots_wf m n p \<longleftrightarrow>
     map snd p = [0..<length p] \<and> length p \<le> m \<and> distinct (map fst p) \<and>
     (\<forall>jp \<in> set p. fst jp < n)"

definition pivots_exact :: "nat \<Rightarrow> rmat \<Rightarrow> rmat \<Rightarrow> pivots \<Rightarrow> bool" where
  "pivots_exact m Tr A p \<longleftrightarrow>
     (\<forall>jp \<in> set p. rdot (Tr ! snd jp) (column A (fst jp)) = 1 \<and>
        (\<forall>i. snd jp < i \<and> i < m \<longrightarrow> rdot (Tr ! i) (column A (fst jp)) = 0))"

definition elim_inv :: "nat \<Rightarrow> nat \<Rightarrow> rmat \<Rightarrow> nat \<Rightarrow> bmat \<Rightarrow> pivots \<Rightarrow> bool" where
  "elim_inv m n A r0 T p \<longleftrightarrow>
     is_mat m m T \<and> pivots_wf m n p \<and> r0 \<le> length p \<and>
     (\<exists>Tr. mcontains Tr T \<and> (\<forall>i<r0. Tr ! i = unit_row m i) \<and> pivots_exact m Tr A p)"

definition ridentity :: "nat \<Rightarrow> rmat" where
  "ridentity m = map (unit_row m) [0..<m]"

text \<open>The rank of a real matrix: the greatest number of linearly independent columns.\<close>

definition indep_cols :: "rmat \<Rightarrow> nat list \<Rightarrow> bool" where
  "indep_cols A js \<longleftrightarrow>
     (\<forall>c :: nat \<Rightarrow> real.
        (\<forall>i<length A. sum_list (map (\<lambda>k. c k * A ! i ! (js ! k)) [0..<length js]) = 0)
        \<longrightarrow> (\<forall>k<length js. c k = 0))"

definition rank :: "rmat \<Rightarrow> nat" where
  "rank A = Max {k. \<exists>js. length js = k \<and> distinct js \<and> set js \<subseteq> {..<ncols A} \<and> indep_cols A js}"

text \<open>A 2-by-2 matrix with one uncertain entry, the stages of its elimination, and a
  real matrix it contains.\<close>

definition ex2 :: bmat where
  "ex2 = [[Ball 2 (1/2), Ball 1 0], [Ball 1 0, Ball 3 0]]"

definition ex2_T1 :: bmat where
  "ex2_T1 = [[Ball (8/15) (2/15), Ball 0 0], [Ball (-8/15) (2/15), Ball 1 0]]"

definition ex2_T :: bmat where
  "ex2_T = [[Ball (8/15) (2/15), Ball 0 0], [Ball (-296/1365) (94/1365), Ball (37/91) (2/91)]]"

definition ex2_TM :: bmat where
  "ex2_TM = [[Ball (16/15) (3/5), Ball (8/15) (2/15)],
             [Ball (-37/1365) (59/195), Ball (1369/1365) (184/1365)]]"

definition ex2_R :: bmat where
  "ex2_R = [[Ball 1 0, Ball (8/15) (2/15)], [Ball 0 0, Ball 1 0]]"

definition ex2_p0 :: pivots where "ex2_p0 = [(0, 0)]"
definition ex2_p :: pivots where "ex2_p = [(0, 0), (1, 1)]"

definition ex2_A :: rmat where
  "ex2_A = [[2, 1], [1, 3]]"

section \<open>The echelon engine on a store\<close>

text \<open>
  To speak about what a call of \<open>REF\<close> changes, the objects it works on live in a
  store: matrices and dictionaries at addresses, with a counter for the next fresh address.
  The arguments are addresses.  \<open>identity_matrix\<close>, \<open>prec_pivots.copy()\<close> and the
  product \<open>T * mat\<close> create objects; the assignments to \<open>T[i]\<close>, \<open>p[j]\<close> and
  \<open>R[i,j]\<close> overwrite the objects so created.
\<close>

datatype obj = Matrix bmat | Dict pivots

record store =
  heap :: "nat \<Rightarrow> obj option"
  next_addr :: nat

definition alloc :: "obj \<Rightarrow> store \<Rightarrow> nat \<times> store" where
  "alloc v s = (next_addr s, s\<lparr>heap := (heap s)(next_addr s \<mapsto> v), next_addr := Suc (next_addr s)\<rparr>)"

definition put_obj :: "nat \<Rightarrow> obj \<Rightarrow> store \<Rightarrow> store" where
  "put_obj a v s = s\<lparr>heap := (heap s)(a \<mapsto> v)\<rparr>"

definition REF_store ::
  "nat \<Rightarrow> bool \<Rightarrow> bool \<Rightarrow> nat \<Rightarrow> store \<Rightarrow> (error + (nat \<times> nat option \<times> nat option)) \<times> store" where
  "REF_store a_mat transformation pivots a_prec s =
     (case (heap s a_mat, heap s a_prec) of
        (Some (Matrix mat), Some (Dict prec_pivots)) \<Rightarrow>
          (let m = nrows mat; n = ncols mat;
               (a_T, s1) = alloc (Matrix (identity_matrix m)) s;
               (a_p, s2) = alloc (Dict prec_pivots) s1;
               r = length prec_pivots
           in (case replay mat m n r prec_pivots (identity_matrix m) of
                 Inl e \<Rightarrow> (Inl e, s2)
               | Inr T0 \<Rightarrow>
                   (let s3 = put_obj a_T (Matrix T0) s2;
                        Tp = fold (pivot_step mat m) [0..<n] (T0, prec_pivots);
                        s4 = put_obj a_p (Dict (snd Tp)) (put_obj a_T (Matrix (fst Tp)) s3)
                    in if \<exists>jp \<in> set (snd Tp). m \<le> snd jp then (Inl IndexError, s4)
                       else
                         (let (a_R, s5) = alloc (Matrix (mat_mul (fst Tp) mat)) s4;
                              s6 = put_obj a_R (Matrix (fold (set_pivot m) (snd Tp) (mat_mul (fst Tp) mat))) s5
                          in if transformation then
                               if contains_zero (bdet (fst Tp)) then (Inl PrecisionError, s6)
                               else (Inr (a_R, Some a_T, if pivots then Some a_p else None), s6)
                             else (Inr (a_R, None, if pivots then Some a_p else None), s6)))))
      | _ \<Rightarrow> (Inl TypeError, s))"

text \<open>A store holding the matrix \<open>ex2\<close> and an empty dictionary.\<close>

definition store0 :: store where
  "store0 = \<lparr>heap = [0 \<mapsto> Matrix ex2, 1 \<mapsto> Dict []], next_addr = 2\<rparr>"

text \<open>The assumption of \<open>REF\<close> on earlier pivots, for a real matrix: in its first
  \<open>length p\<close> rows every pivot entry is 1 and the entries below it are 0.\<close>

definition rows_exact :: "rmat \<Rightarrow> pivots \<Rightarrow> bool" where
  "rows_exact A p \<longleftrightarrow>
     (\<forall>jp \<in> set p. A ! snd jp ! fst jp = 1 \<and>
        (\<forall>i. snd jp < i \<and> i < length p \<longrightarrow> A ! i ! fst jp = 0))"

text \<open>Scalar multiples and sums of real matrices, and the algebra generated by a family
  of real n-by-n matrices: the matrices obtained from the family and the identity by sums,
  scalar multiples and products (the polynomials in the family).\<close>

definition rsmul :: "real \<Rightarrow> rmat \<Rightarrow> rmat" where
  "rsmul c A = map (map ((*) c)) A"

definition rmadd :: "rmat \<Rightarrow> rmat \<Rightarrow> rmat" where
  "rmadd A B =
     map (\<lambda>i. map (\<lambda>k. A ! i ! k + B ! i ! k) [0..<length (A ! i)]) [0..<length A]"

definition rzero :: "nat \<Rightarrow> rmat" where
  "rzero n = replicate n (replicate n 0)"

definition rmsum :: "nat \<Rightarrow> rmat list \<Rightarrow> rmat" where
  "rmsum n Xs = foldl rmadd (rzero n) Xs"

inductive_set generated :: "rmat list \<Rightarrow> nat \<Rightarrow> rmat set"
  for Ms :: "rmat list" and n :: nat where
  gen_zero: "rzero n \<in> generated Ms n"
| gen_one: "ridentity n \<in> generated Ms n"
| gen_mat: "M \<in> set Ms \<Longrightarrow> M \<in> generated Ms n"
| gen_add: "X \<in> generated Ms n \<Longrightarrow> Y \<in> generated Ms n \<Longrightarrow> rmadd X Y \<in> generated Ms n"
| gen_smul: "X \<in> generated Ms n \<Longrightarrow> rsmul c X \<in> generated Ms n"
| gen_mul: "X \<in> generated Ms n \<Longrightarrow> Y \<in> generated Ms n \<Longrightarrow> rmat_mul X Y \<in> generated Ms n"

text \<open>The invariant of the loop of \<open>orbit\<close>, for a real family \<open>Ms\<close> and a real seed
  \<open>v\<close>: the basis contains real vectors with exact pivots, each the image of the seed under a
  real matrix contained in the corresponding transition operator.\<close>

definition orbit_inv :: "rmat list \<Rightarrow> rvec \<Rightarrow> nat \<Rightarrow> bmat \<Rightarrow> bmat list \<Rightarrow> pivots \<Rightarrow> bool" where
  "orbit_inv Ms v n b T p \<longleftrightarrow>
     is_mat (length p) n b \<and> length T = length p \<and> (\<forall>X \<in> set T. is_mat n n X) \<and>
     pivots_wf (length p) n p \<and>
     (\<exists>bs Ts. mcontains bs b \<and> list_all2 mcontains Ts T \<and> rows_exact bs p \<and>
        list_all2 (\<lambda>x t. x = rmat_vec t v \<and> t \<in> generated Ms n) bs Ts)"

text \<open>A two-dimensional seed whose first entry is known to within 1, a nilpotent matrix
  that shifts the first coordinate to the second, and the stages of the orbit.\<close>

definition seed2 :: bvec where "seed2 = [Ball 2 1, Ball 0 0]"
definition nil2 :: bmat where "nil2 = [[Ball 0 0, Ball 0 0], [Ball 1 0, Ball 0 0]]"
definition fam2 :: "bmat list" where "fam2 = [nil2]"
definition seed2_S :: bmat where "seed2_S = [[Ball (2/3) (1/3)]]"
definition seed2_p0 :: pivots where "seed2_p0 = [(0, 0)]"
definition seed2_TM :: bmat where "seed2_TM = [[Ball (4/3) (5/3), Ball 0 0]]"
definition seed2_b0 :: bmat where "seed2_b0 = [[Ball 1 0, Ball 0 0]]"
definition seed2_T0 :: bmat where
  "seed2_T0 = [[Ball (2/3) (1/3), Ball 0 0], [Ball 0 0, Ball (2/3) (1/3)]]"
definition seed2_T1 :: bmat where
  "seed2_T1 = [[Ball 0 0, Ball 0 0], [Ball (2/3) (1/3), Ball 0 0]]"
definition seed2_b :: bmat where "seed2_b = [[Ball 1 0, Ball 0 0], [Ball 0 0, Ball 1 0]]"
definition seed2_p :: pivots where "seed2_p = [(0, 0), (1, 1)]"

text \<open>A real family generates the full algebra when every real n-by-n matrix is a
  polynomial in it.  The invariant of the loop of \<open>generated_algebra\<close>: the basis contains
  real vectors with exact pivots, each the flattening of a matrix of the generated algebra.\<close>

definition generates_full :: "rmat list \<Rightarrow> nat \<Rightarrow> bool" where
  "generates_full Ms n \<longleftrightarrow> (\<forall>X. is_mat n n X \<longrightarrow> X \<in> generated Ms n)"

definition ga_inv :: "rmat list \<Rightarrow> nat \<Rightarrow> bmat \<Rightarrow> pivots \<Rightarrow> bool" where
  "ga_inv Ms n b p \<longleftrightarrow>
     is_mat (length p) (n * n) b \<and> pivots_wf (length p) (n * n) p \<and>
     (\<exists>bs. mcontains bs b \<and> rows_exact bs p \<and> (\<forall>x \<in> set bs. unflatten n x \<in> generated Ms n))"

text \<open>A family of one 1-by-1 matrix whose entry is known to within 2.\<close>

definition wide1 :: "bmat list" where "wide1 = [[[Ball 1 2]]]"

text \<open>The two off-diagonal matrix units of size 2, exactly known, and the stages of the
  algebra they generate: the flattened family, the six rows of the one round of the loop
  with the transformations that sort them, and the basis of four rows returned.\<close>

definition unit12 :: bmat where "unit12 = [[Ball 0 0, Ball 1 0], [Ball 0 0, Ball 0 0]]"
definition unit21 :: bmat where "unit21 = [[Ball 0 0, Ball 0 0], [Ball 1 0, Ball 0 0]]"
definition units2 :: "bmat list" where "units2 = [unit12, unit21]"
definition units2_flat :: bmat where
  "units2_flat = [[Ball 0 0, Ball 1 0, Ball 0 0, Ball 0 0], [Ball 0 0, Ball 0 0, Ball 1 0, Ball 0 0]]"
definition units2_p0 :: pivots where "units2_p0 = [(1, 0)]"
definition units2_p1 :: pivots where "units2_p1 = [(1, 0), (2, 1)]"
definition units2_stack :: bmat where
  "units2_stack =
     [[Ball 0 0, Ball 1 0, Ball 0 0, Ball 0 0], [Ball 0 0, Ball 0 0, Ball 1 0, Ball 0 0],
      [Ball 0 0, Ball 0 0, Ball 0 0, Ball 0 0], [Ball 1 0, Ball 0 0, Ball 0 0, Ball 0 0],
      [Ball 0 0, Ball 0 0, Ball 0 0, Ball 1 0], [Ball 0 0, Ball 0 0, Ball 0 0, Ball 0 0]]"
definition units2_T1 :: bmat where
  "units2_T1 = (identity_matrix 6)[2 := identity_matrix 6 ! 3, 3 := identity_matrix 6 ! 2]"
definition units2_T2 :: bmat where
  "units2_T2 = units2_T1[3 := units2_T1 ! 4, 4 := units2_T1 ! 3]"
definition units2_p2 :: pivots where "units2_p2 = [(1, 0), (2, 1), (0, 2)]"
definition units2_p :: pivots where "units2_p = [(1, 0), (2, 1), (0, 2), (3, 3)]"
definition units2_R :: bmat where
  "units2_R =
     [[Ball 0 0, Ball 1 0, Ball 0 0, Ball 0 0], [Ball 0 0, Ball 0 0, Ball 1 0, Ball 0 0],
      [Ball 1 0, Ball 0 0, Ball 0 0, Ball 0 0], [Ball 0 0, Ball 0 0, Ball 0 0, Ball 1 0],
      [Ball 0 0, Ball 0 0, Ball 0 0, Ball 0 0], [Ball 0 0, Ball 0 0, Ball 0 0, Ball 0 0]]"
definition units2_b :: bmat where
  "units2_b =
     [[Ball 0 0, Ball 1 0, Ball 0 0, Ball 0 0], [Ball 0 0, Ball 0 0, Ball 1 0, Ball 0 0],
      [Ball 1 0, Ball 0 0, Ball 0 0, Ball 0 0], [Ball 0 0, Ball 0 0, Ball 0 0, Ball 1 0]]"

section \<open>The search for an invariant subspace\<close>





















text \<open>The diagonal matrix with entries 1 and 2, exactly known, and the parameters of a run
  on it: the coefficient one half is drawn, the eigenvalue module returns the two
  coordinate lines with their spectral projectors, the polynomials \<open>2 - 2x\<close> and
  \<open>2x - 1\<close>, and \<open>check_nolines\<close> finds nothing.\<close>

definition diag2 :: bmat where
  "diag2 = [[Ball 1 0, Ball 0 0], [Ball 0 0, Ball 2 0]]"














section \<open>Basic facts about the loops\<close>

lemma fold_invariant:
  assumes "P s" and "\<And>x s. x \<in> set xs \<Longrightarrow> P s \<Longrightarrow> P (f x s)"
  shows "P (fold f xs s)"
  using assms by (induction xs arbitrary: s) auto

lemma upt_0_2: "[0..<2] = [0, Suc 0]"
  by code_simp

lemma max_key_in: "max_key key xs = Some i \<Longrightarrow> i \<in> set xs"
proof (cases xs)
  case Nil
  then show "max_key key xs = Some i \<Longrightarrow> i \<in> set xs" by simp
next
  case (Cons x ys)
  have "fold (\<lambda>y best. if key best < key y then y else best) ys x \<in> set (x # ys)"
    by (rule fold_invariant[where P = "\<lambda>b. b \<in> set (x # ys)"]) auto
  then show "max_key key xs = Some i \<Longrightarrow> i \<in> set xs" using Cons by auto
qed

lemma max_key_None: "max_key key xs = None \<longleftrightarrow> xs = []"
  by (cases xs) auto

lemma find_pivot_Some:
  "find_pivot r m col = Some i \<Longrightarrow> r \<le> i \<and> i < m \<and> is_nonzero (col ! i)"
  unfolding find_pivot_def by (drule max_key_in) auto

lemma find_pivot_None:
  "find_pivot r m col = None \<Longrightarrow> r \<le> l \<Longrightarrow> l < m \<Longrightarrow> \<not> is_nonzero (col ! l)"
  unfolding find_pivot_def max_key_None by (auto simp: filter_empty_conv)

lemma pivot_step_snd_cases:
  "snd (pivot_step mat m j (T, p)) = p \<or>
   (\<exists>i. find_pivot (length p) m (mat_vec T (column mat j)) = Some i \<and> j \<notin> fst ` set p \<and>
        snd (pivot_step mat m j (T, p)) = p @ [(j, length p)])"
  unfolding pivot_step_def by (auto simp: Let_def split: option.splits)

lemma pivot_step_rows_bound:
  assumes "\<forall>jp \<in> set (snd Tp). snd jp < m"
  shows "\<forall>jp \<in> set (snd (pivot_step mat m j Tp)). snd jp < m"
proof -
  obtain T p where Tp: "Tp = (T, p)" by (cases Tp)
  from pivot_step_snd_cases[of mat m j T p] show ?thesis
  proof
    assume "snd (pivot_step mat m j (T, p)) = p"
    then show ?thesis using assms Tp by simp
  next
    assume "\<exists>i. find_pivot (length p) m (mat_vec T (column mat j)) = Some i \<and> j \<notin> fst ` set p \<and>
        snd (pivot_step mat m j (T, p)) = p @ [(j, length p)]"
    then obtain i where i: "find_pivot (length p) m (mat_vec T (column mat j)) = Some i"
      and s: "snd (pivot_step mat m j (T, p)) = p @ [(j, length p)]" by blast
    from find_pivot_Some[OF i] have "length p < m" by simp
    then show ?thesis using assms Tp s by auto
  qed
qed

lemma pivot_fold_rows_bound:
  assumes "\<forall>jp \<in> set (snd Tp). snd jp < m"
  shows "\<forall>jp \<in> set (snd (fold (pivot_step mat m) js Tp)). snd jp < m"
  by (rule fold_invariant[where P = "\<lambda>s. \<forall>jp \<in> set (snd s). snd jp < m"])
     (use assms pivot_step_rows_bound in auto)

lemma replay_not_PrecisionError: "replay mat m n r ps T \<noteq> Inl PrecisionError"
  by (induction ps arbitrary: T) auto

lemma REF_elim_not_PrecisionError: "REF_elim mat pp \<noteq> Inl PrecisionError"
  unfolding REF_elim_def using replay_not_PrecisionError
  by (auto simp: Let_def split: sum.splits)

lemma REF_elim_empty:
  "\<exists>T p. REF_elim mat [] = Inr (T, p) \<and> (\<forall>jp \<in> set p. snd jp < nrows mat)"
proof -
  let ?s = "fold (pivot_step mat (nrows mat)) [0..<ncols mat] (identity_matrix (nrows mat), [])"
  have "\<forall>jp \<in> set (snd ?s). snd jp < nrows mat"
    by (rule pivot_fold_rows_bound) simp
  moreover have "REF_elim mat [] = Inr (fst ?s, snd ?s)"
    by (simp add: REF_elim_def Let_def)
  ultimately show ?thesis by blast
qed

section \<open>The rows below the last pivot\<close>

lemma upt_0_3: "[0..<3] = [0, Suc 0, 2]" by code_simp
lemma skew3_dims: "nrows skew3 = 3" "ncols skew3 = 3" by code_simp+
lemma skew3_step0: "pivot_step skew3 3 0 (identity_matrix 3, []) = (skew3_T1, skew3_p0)"
  by code_simp
lemma skew3_step1: "pivot_step skew3 3 (Suc 0) (skew3_T1, skew3_p0) = (skew3_T1, skew3_p0)"
  by code_simp
lemma skew3_step2: "pivot_step skew3 3 2 (skew3_T1, skew3_p0) = (skew3_T, skew3_p)"
  by code_simp
lemma skew3_elim: "REF_elim skew3 [] = Inr (skew3_T, skew3_p)"
  by (simp add: REF_elim_def skew3_dims upt_0_3 skew3_step0 skew3_step1 skew3_step2)
lemma skew3_mul: "mat_mul skew3_T skew3 = skew3_TM"
  by code_simp
lemma skew3_set: "fold (set_pivot 3) skew3_p skew3_TM = skew3_R"
  by code_simp
lemma skew3_p_rows: "\<not> (\<exists>jp \<in> set skew3_p. 3 \<le> snd jp)"
  by code_simp
lemma skew3_REF: "REF skew3 False True [] = Inr (skew3_R, None, Some skew3_p)"
  by (simp only: REF_def skew3_elim skew3_dims skew3_mul skew3_set skew3_p_rows Let_def sum.case prod.case if_False if_True)

lemma skew3_R_dims: "nrows skew3_R = 3" "ncols skew3_R = 3" "length skew3_p = 2" by code_simp+
lemma skew3_R_replay: "replay skew3_R 3 3 2 skew3_p (identity_matrix 3) = Inr (identity_matrix 3)"
  by code_simp
lemma skew3_R_step0: "pivot_step skew3_R 3 0 (identity_matrix 3, skew3_p) = (identity_matrix 3, skew3_p)"
  by code_simp
lemma skew3_R_step1: "pivot_step skew3_R 3 (Suc 0) (identity_matrix 3, skew3_p) = (skew3_T', skew3_p')"
  by code_simp
lemma skew3_R_step2: "pivot_step skew3_R 3 2 (skew3_T', skew3_p') = (skew3_T', skew3_p')"
  by code_simp
lemma skew3_R_elim: "REF_elim skew3_R skew3_p = Inr (skew3_T', skew3_p')"
  by (simp add: REF_elim_def skew3_R_dims upt_0_3 skew3_R_replay skew3_R_step0 skew3_R_step1 skew3_R_step2)
lemma skew3_R_mul: "mat_mul skew3_T' skew3_R = skew3_R'"
  by code_simp
lemma skew3_R_set: "fold (set_pivot 3) skew3_p' skew3_R' = skew3_R'"
  by code_simp
lemma skew3_p'_rows: "\<not> (\<exists>jp \<in> set skew3_p'. 3 \<le> snd jp)"
  by code_simp
lemma skew3_R_REF: "REF skew3_R False True skew3_p = Inr (skew3_R', None, Some skew3_p')"
  by (simp only: REF_def skew3_R_elim skew3_R_dims skew3_R_mul skew3_R_set skew3_p'_rows Let_def sum.case prod.case if_False if_True)
lemma skew3_facts: "skew3_R ! 2 ! 1 = Ball 2 0" "\<not> contains_zero (Ball 2 0)" "length skew3_p = 2" "skew3_R' \<noteq> skew3_R" "skew3_p' \<noteq> skew3_p"
  by code_simp+

text \<open>
  Claim C2.  On \<open>skew3\<close> the engine finds two pivots, in columns 0 and 2, and the third
  row of the result, which lies beyond the pivot rows, holds the exact entry 2 in column 1:
  that row is not a zero row and its enclosure does not even contain one.
\<close>

theorem REF_skew3_row_beyond_pivots:
  "REF skew3 False True [] = Inr (skew3_R, None, Some skew3_p) \<and> length skew3_p = 2 \<and>
   skew3_R ! 2 ! 1 = Ball 2 0 \<and> \<not> contains_zero (skew3_R ! 2 ! 1)"
  using skew3_REF skew3_facts by simp

text \<open>
  Claim C5.  Running the engine again on that result, with the pivots found, finds a third
  pivot in column 1 and rescales the third row: neither the matrix nor the pivots are
  returned unchanged.
\<close>

theorem REF_skew3_rerun_differs:
  "REF skew3 False True [] = Inr (skew3_R, None, Some skew3_p) \<and>
   REF skew3_R False True skew3_p = Inr (skew3_R', None, Some skew3_p') \<and>
   skew3_R' \<noteq> skew3_R \<and> skew3_p' \<noteq> skew3_p"
  using skew3_REF skew3_R_REF skew3_facts by simp

section \<open>When the echelon engine fails\<close>

lemma wide2_dims: "nrows wide2 = 2" "ncols wide2 = 2"
  by code_simp+

lemma wide2_step0:
  "pivot_step wide2 2 0 (identity_matrix 2, []) =
     ([[Ball 0 0, Ball (4/3) (2/3)], [Ball 1 0, Ball 0 0]], [(0, 0)])"
  by code_simp

lemma wide2_step1:
  "pivot_step wide2 2 (Suc 0) ([[Ball 0 0, Ball (4/3) (2/3)], [Ball 1 0, Ball 0 0]], [(0, 0)]) =
     (wide2_T, [(0, 0), (1, 1)])"
  by code_simp

lemma wide2_elim: "REF_elim wide2 [] = Inr (wide2_T, [(0, 0), (1, 1)])"
  by (simp add: REF_elim_def wide2_dims upt_0_2 wide2_step0 wide2_step1)

lemma wide2_det: "contains_zero (bdet wide2_T)"
  by code_simp

lemma wide2_REF: "REF wide2 True pv [] = Inl PrecisionError"
  by (simp add: REF_def wide2_elim wide2_dims wide2_det)

text \<open>
  Claim C4.  \<open>REF\<close> raises the precision failure exactly when a transformation was
  requested, the elimination itself went through, and the determinant enclosure of the
  computed transformation contains zero.  Called without a transformation and without
  earlier pivots, it returns on every matrix.
\<close>

theorem REF_PrecisionError_iff:
  "(REF mat transformation pivots prec_pivots = Inl PrecisionError \<longleftrightarrow>
      transformation \<and>
      (\<exists>T p. REF_elim mat prec_pivots = Inr (T, p) \<and> (\<forall>jp \<in> set p. snd jp < nrows mat) \<and>
             contains_zero (bdet T))) \<and>
   (\<exists>R p. REF mat False pivots [] = Inr (R, None, if pivots then Some p else None))"
proof
  show "REF mat transformation pivots prec_pivots = Inl PrecisionError \<longleftrightarrow>
      transformation \<and>
      (\<exists>T p. REF_elim mat prec_pivots = Inr (T, p) \<and> (\<forall>jp \<in> set p. snd jp < nrows mat) \<and>
             contains_zero (bdet T))"
    using REF_elim_not_PrecisionError[of mat prec_pivots]
    by (cases "REF_elim mat prec_pivots")
       (auto simp: REF_def Let_def not_le split: if_splits)
next
  from REF_elim_empty[of mat] obtain T p where
    "REF_elim mat [] = Inr (T, p)" "\<forall>jp \<in> set p. snd jp < nrows mat" by blast
  then show "\<exists>R p. REF mat False pivots [] = Inr (R, None, if pivots then Some p else None)"
    by (auto simp: REF_def Let_def not_le)
qed

theorem REF_PrecisionError_iff_witness:
  "REF wide2 True False [] = Inl PrecisionError \<and>
   (\<exists>T p. REF_elim wide2 [] = Inr (T, p) \<and> (\<forall>jp \<in> set p. snd jp < nrows wide2) \<and>
          contains_zero (bdet T)) \<and>
   (\<exists>R. REF wide2 False False [] = Inr (R, None, None))"
  using REF_PrecisionError_iff[of wide2 True False "[]"] wide2_REF[of False] by simp

section \<open>Shapes of the results\<close>

declare orbit_loop.simps [simp del] ga_loop.simps [simp del]


lemma bmul_bone [simp]: "bmul bone x = x"
  by (cases x) (simp add: bmul_def bone_def)

lemma badd_bzero [simp]: "badd bzero x = x"
  by (cases x) (simp add: badd_def bzero_def)

lemma is_nonzero_iff: "is_nonzero x \<longleftrightarrow> \<not> contains_zero x"
  by (auto simp: is_nonzero_def contains_zero_def)

lemma length_row_elim [simp]: "length (row_elim m c s i T) = length T"
  by (simp add: row_elim_def)

lemma length_fold_row_elim [simp]:
  "length (fold (\<lambda>l T. row_elim m (f l) s l T) ls T) = length T"
  by (induction ls arbitrary: T) auto

lemma length_pivot_step [simp]: "length (fst (pivot_step mat m j Tp)) = length (fst Tp)"
  by (simp add: pivot_step_def Let_def split: option.splits)

lemma length_pivot_fold [simp]: "length (fst (fold (pivot_step mat m) js Tp)) = length (fst Tp)"
  by (induction js arbitrary: Tp) auto

lemma length_replay_pivot [simp]: "length (replay_pivot mat m r jp T) = length T"
  by (simp add: replay_pivot_def Let_def)

lemma length_replay: "replay mat m n r ps T = Inr T' \<Longrightarrow> length T' = length T"
  by (induction ps arbitrary: T) (auto split: if_splits)

lemma pivot_step_mono: "length (snd Tp) \<le> length (snd (pivot_step mat m j Tp))"
  using pivot_step_snd_cases[of mat m j "fst Tp" "snd Tp"] by auto

lemma pivot_fold_mono: "length (snd Tp) \<le> length (snd (fold (pivot_step mat m) js Tp))"
proof (induction js arbitrary: Tp)
  case Nil
  show ?case by simp
next
  case (Cons j js)
  have "length (snd Tp) \<le> length (snd (pivot_step mat m j Tp))" by (rule pivot_step_mono)
  also have "\<dots> \<le> length (snd (fold (pivot_step mat m) js (pivot_step mat m j Tp)))"
    by (rule Cons.IH)
  finally show ?case by simp
qed

lemma length_identity_matrix [simp]: "length (identity_matrix m) = m"
  by (simp add: identity_matrix_def)

lemma REF_elim_lengths:
  assumes "REF_elim mat pp = Inr (T, p)"
  shows "length T = nrows mat" and "length pp \<le> length p"
proof -
  from assms obtain T0 where r: "replay mat (nrows mat) (ncols mat) (length pp) pp (identity_matrix (nrows mat)) = Inr T0"
    and f: "fold (pivot_step mat (nrows mat)) [0..<ncols mat] (T0, pp) = (T, p)"
    by (auto simp: REF_elim_def Let_def split: sum.splits)
  from length_replay[OF r] have "length T0 = nrows mat" by simp
  moreover have "length (fst (fold (pivot_step mat (nrows mat)) [0..<ncols mat] (T0, pp))) = length T0"
    by simp
  ultimately show "length T = nrows mat" using f by simp
  from pivot_fold_mono[of "(T0, pp)" mat "nrows mat" "[0..<ncols mat]"] f
  show "length pp \<le> length p" by simp
qed

lemma length_set_entry [simp]: "length (set_entry i j v R) = length R"
  by (simp add: set_entry_def)

lemma length_set_pivot [simp]: "length (set_pivot m jp R) = length R"
proof -
  have "length (fold (\<lambda>i R. set_entry i j bzero R) is R0) = length R0" for j "is" R0
    by (induction "is" arbitrary: R0) auto
  then show ?thesis by (simp add: set_pivot_def)
qed

lemma length_set_pivot_fold [simp]: "length (fold (set_pivot m) p R) = length R"
  by (induction p arbitrary: R) auto

lemma length_mat_mul [simp]: "length (mat_mul A B) = length A"
  by (simp add: mat_mul_def)

lemma REF_Inr:
  assumes "REF mat tr pv pp = Inr (R, S, P)"
  obtains T p where "REF_elim mat pp = Inr (T, p)"
    and "R = fold (set_pivot (nrows mat)) p (mat_mul T mat)"
    and "S = (if tr then Some T else None)" and "P = (if pv then Some p else None)"
    and "\<forall>jp \<in> set p. snd jp < nrows mat" and "tr \<longrightarrow> \<not> contains_zero (bdet T)"
  using assms
  by (cases "REF_elim mat pp") (auto simp: REF_def Let_def not_le split: if_splits)

lemma REF_lengths:
  assumes "REF mat tr True pp = Inr (R, S, Some p)"
  shows "length R = nrows mat" and "length pp \<le> length p"
proof -
  from assms obtain T p0 where e: "REF_elim mat pp = Inr (T, p0)"
    and R: "R = fold (set_pivot (nrows mat)) p0 (mat_mul T mat)" and P: "Some p = Some p0"
    by (rule REF_Inr) auto
  from REF_elim_lengths[OF e] R P show "length R = nrows mat" "length pp \<le> length p" by auto
qed

lemma orbit_loop_nonempty:
  "orbit_loop Mats n tr b T p r new = Inr (b', T') \<Longrightarrow> b \<noteq> [] \<Longrightarrow> p \<noteq> [] \<Longrightarrow> b' \<noteq> []"
proof (induction Mats n tr b T p r new arbitrary: b' T' rule: orbit_loop.induct)
  case (1 Mats n tr b T p r new)
  show ?case
  proof (cases "new \<noteq> [] \<and> r < n")
    case False
    with "1.prems" show ?thesis by (simp add: orbit_loop.simps)
  next
    case True
    let ?b1 = "b @ concat (map (\<lambda>mat. map (\<lambda>i. mat_vec mat (b ! i)) new) Mats)"
    let ?T1 = "if tr then T @ concat (map (\<lambda>mat. map (\<lambda>i. mat_mul mat (T ! i)) new) Mats) else T"
    from True "1.prems"(1) have M: "Mats \<noteq> []"
      by (auto simp: orbit_loop.simps split: if_splits)
    from True M "1.prems"(1) obtain R S p' where
      ref: "REF ?b1 tr True p = Inr (R, S, Some p')"
      by (subst (asm) orbit_loop.simps) (auto simp: Let_def split: sum.splits option.splits)
    let ?new' = "[r..<length p']"
    let ?b2 = "take (length p') R"
    let ?T2 = "case S of None \<Rightarrow> ?T1
               | Some S \<Rightarrow> take r ?T1 @ map (\<lambda>i. msum n (map (\<lambda>j. smul (S ! i ! j) (?T1 ! j)) [0..<length ?T1])) ?new'"
    from True M ref "1.prems"(1) have rec: "orbit_loop Mats n tr ?b2 ?T2 p' (length p') ?new' = Inr (b', T')"
      by (subst (asm) orbit_loop.simps) (simp add: Let_def)
    from REF_lengths[OF ref] "1.prems" have "length R \<noteq> 0" "p' \<noteq> []"
      by (auto simp: nrows_def)
    then have b2: "?b2 \<noteq> []" by auto
    show ?thesis
      by (rule "1.IH"[OF True M refl refl ref refl refl refl refl refl refl rec b2 \<open>p' \<noteq> []\<close>])
  qed
qed

section \<open>The empty orbit\<close>

lemma identity_matrix_1: "identity_matrix (Suc 0) = [[bone]]"
  by (simp add: identity_matrix_def)

lemma bsum_single [simp]: "bsum [x] = x"
  by (simp add: bsum_def)

lemma seed_col: "mat_vec [[bone]] (column [vec] j) = [vec ! j]"
  by (simp add: mat_vec_def column_def bdot_def)

lemma find_pivot_single:
  "find_pivot 0 (Suc 0) [x] = (if is_nonzero x then Some 0 else None)"
  by (simp add: find_pivot_def)

lemma seed_step_zero:
  "\<not> is_nonzero (vec ! j) \<Longrightarrow> pivot_step [vec] (Suc 0) j ([[bone]], []) = ([[bone]], [])"
  by (simp add: pivot_step_def seed_col find_pivot_single)

lemma seed_step_nonzero:
  "is_nonzero (vec ! j) \<Longrightarrow> snd (pivot_step [vec] (Suc 0) j ([[bone]], [])) = [(j, 0)]"
  by (simp add: pivot_step_def seed_col find_pivot_single Let_def)

lemma seed_fold_zero:
  "\<forall>j \<in> set js. \<not> is_nonzero (vec ! j) \<Longrightarrow>
     fold (pivot_step [vec] (Suc 0)) js ([[bone]], []) = ([[bone]], [])"
  by (induction js) (auto simp: seed_step_zero)

lemma seed_fold_nonzero:
  "\<exists>j \<in> set js. is_nonzero (vec ! j) \<Longrightarrow>
     snd (fold (pivot_step [vec] (Suc 0)) js ([[bone]], [])) \<noteq> []"
proof (induction js)
  case Nil
  then show ?case by simp
next
  case (Cons j js)
  show ?case
  proof (cases "is_nonzero (vec ! j)")
    case True
    have "length (snd (pivot_step [vec] (Suc 0) j ([[bone]], [])))
          \<le> length (snd (fold (pivot_step [vec] (Suc 0)) js (pivot_step [vec] (Suc 0) j ([[bone]], []))))"
      by (rule pivot_fold_mono)
    with seed_step_nonzero[OF True] show ?thesis by auto
  next
    case False
    with Cons.prems have "\<exists>j \<in> set js. is_nonzero (vec ! j)" by auto
    from Cons.IH[OF this] False show ?thesis by (simp add: seed_step_zero)
  qed
qed

lemma seed_dims: "nrows [vec] = Suc 0" "ncols [vec] = length vec"
  by (simp_all add: nrows_def ncols_def)

lemma seed_elim:
  "REF_elim [vec] [] = Inr (fold (pivot_step [vec] (Suc 0)) [0..<length vec] ([[bone]], []))"
  by (simp add: REF_elim_def seed_dims identity_matrix_1)

lemma all_contains_zero_iff:
  "(\<forall>x \<in> set vec. contains_zero x) \<longleftrightarrow> (\<forall>j \<in> set [0..<length vec]. \<not> is_nonzero (vec ! j))"
  by (auto simp: is_nonzero_iff all_set_conv_all_nth)

lemma bdet_bone: "\<not> contains_zero (bdet [[bone]])"
  by (simp add: bone_def bmul_def contains_zero_def)

lemma seed_REF_zero:
  assumes "\<forall>x \<in> set vec. contains_zero x"
  shows "\<exists>R. REF [vec] True True [] = Inr (R, Some [[bone]], Some [])"
proof -
  from assms have "\<forall>j \<in> set [0..<length vec]. \<not> is_nonzero (vec ! j)"
    by (simp only: all_contains_zero_iff)
  from seed_fold_zero[OF this] have "REF_elim [vec] [] = Inr ([[bone]], [])"
    by (simp add: seed_elim)
  then show ?thesis using bdet_bone by (simp add: REF_def)
qed

lemma seed_REF_nonzero:
  assumes "\<not> (\<forall>x \<in> set vec. contains_zero x)" and "REF [vec] True True [] = Inr (R, S, P)"
  shows "\<exists>T p. S = Some T \<and> P = Some p \<and> p \<noteq> [] \<and> R \<noteq> []"
proof -
  from assms(1) have ex: "\<exists>j \<in> set [0..<length vec]. is_nonzero (vec ! j)"
    by (simp only: all_contains_zero_iff) blast
  from assms(2) obtain T p where e: "REF_elim [vec] [] = Inr (T, p)"
    and R: "R = fold (set_pivot (nrows [vec])) p (mat_mul T [vec])" and S: "S = Some T" and P: "P = Some p"
    by (rule REF_Inr) auto
  from e have "p = snd (fold (pivot_step [vec] (Suc 0)) [0..<length vec] ([[bone]], []))"
    by (simp add: seed_elim)
  with seed_fold_nonzero[OF ex] have "p \<noteq> []" by simp
  moreover have "length R = length T" by (simp add: R)
  with REF_elim_lengths(1)[OF e] have "R \<noteq> []" by (auto simp: seed_dims)
  ultimately show ?thesis using S P by simp
qed

lemma seed_product_entry:
  "mat_vec (identity_matrix (Suc 0)) (column [vec] j) ! 0 = vec ! j"
  by (simp add: identity_matrix_1 seed_col)

text \<open>
  Claim C7, as the code has it.  For a seed with at least one entry, \<open>orbit\<close> returns
  the empty basis exactly when \<open>REF\<close> finds no pivot in the one-row matrix of the seed,
  that is, when no entry of the products \<open>T * vector(mat[:,j])\<close> it computes, \<open>T\<close> being
  the 1-by-1 identity, passes \<open>is_nonzero\<close>.  This is so whenever every entry of the seed
  contains zero, in particular when the seed is certified to be the zero vector; then
  \<open>orbit\<close> returns \<open>[]\<close>, and the pair of two empty lists when transitions are
  requested.
\<close>

theorem orbit_empty_iff:
  assumes "vec \<noteq> []"
  shows "((\<exists>T. orbit Mats vec transition = Inr ([], T)) \<longleftrightarrow>
            (\<forall>j<length vec.
               \<not> is_nonzero (mat_vec (identity_matrix (Suc 0)) (column [vec] j) ! 0))) \<and>
         ((\<forall>x \<in> set vec. contains_zero x) \<longrightarrow>
            orbit Mats vec transition = Inr ([], if transition then Some [] else None)) \<and>
         (certified_zero_vec vec \<longrightarrow>
            orbit Mats vec transition = Inr ([], if transition then Some [] else None))"
proof -
  have len: "length vec \<noteq> 0" using assms by simp
  have zero: "orbit Mats vec transition = Inr ([], if transition then Some [] else None)"
    if "\<forall>x \<in> set vec. contains_zero x"
  proof -
    from seed_REF_zero[OF that] obtain R where "REF [vec] True True [] = Inr (R, Some [[bone]], Some [])"
      by blast
    then show ?thesis using len by (simp add: orbit_def)
  qed
  have nonzero: False if nz: "\<not> (\<forall>x \<in> set vec. contains_zero x)"
    and o: "orbit Mats vec transition = Inr ([], T)" for T
  proof (cases "REF [vec] True True []")
    case (Inl e)
    with o len show False by (simp add: orbit_def)
  next
    case (Inr res)
    obtain R S P where res: "res = (R, S, P)" by (cases res)
    from seed_REF_nonzero[OF nz Inr[unfolded res]] obtain T0 p where
      "S = Some T0" "P = Some p" "p \<noteq> []" "R \<noteq> []" by blast
    with o Inr res len obtain b' T' where
      l: "orbit_loop Mats (length vec) transition R
            (if transition then [smul (T0 ! 0 ! 0) (identity_matrix (length vec))] else []) p 1 [0..<1]
          = Inr (b', T')" and "b' = []"
      by (auto simp: orbit_def Let_def split: sum.splits)
    from orbit_loop_nonempty[OF l \<open>R \<noteq> []\<close> \<open>p \<noteq> []\<close>] \<open>b' = []\<close> show False by simp
  qed
  have cz: "\<forall>x \<in> set vec. contains_zero x" if "certified_zero_vec vec"
    using that by (auto simp: certified_zero_vec_def contains_zero_def)
  have prod: "(\<forall>j<length vec.
                 \<not> is_nonzero (mat_vec (identity_matrix (Suc 0)) (column [vec] j) ! 0))
              \<longleftrightarrow> (\<forall>x \<in> set vec. contains_zero x)"
    by (simp only: seed_product_entry all_contains_zero_iff) auto
  show ?thesis unfolding prod using zero nonzero cz by blast
qed

theorem orbit_empty_iff_witness:
  "[Ball 0 0, Ball 0 1] \<noteq> [] \<and> contains_zero (Ball 0 0) \<and> contains_zero (Ball 0 1) \<and>
   orbit [[[Ball 1 0, Ball 1 0], [Ball 0 0, Ball 1 0]]] [Ball 0 0, Ball 0 1] True = Inr ([], Some [])"
proof -
  have h: "\<forall>x \<in> set [Ball 0 0, Ball 0 1]. contains_zero x" by (simp add: contains_zero_def)
  have n: "[Ball 0 0, Ball 0 1] \<noteq> []" by simp
  from orbit_empty_iff[OF n, of "[[[Ball 1 0, Ball 1 0], [Ball 0 0, Ball 1 0]]]" True] h
  show ?thesis by (simp add: contains_zero_def)
qed

text \<open>
  The seed \<open>[1 \<plusminus> 2]\<close> is not certified to be zero (it contains 1), and its orbit under
  the 1-by-1 identity is returned empty.
\<close>

theorem orbit_empty_uncertified_seed:
  "orbit [[[Ball 1 0]]] [Ball 1 2] False = Inr ([], None) \<and> \<not> certified_zero_vec [Ball 1 2] \<and>
   contains 1 (Ball 1 2)"
proof -
  have h: "\<forall>x \<in> set [Ball 1 2]. contains_zero x" by (simp add: contains_zero_def)
  from seed_REF_zero[OF h] obtain R where "REF [[Ball 1 2]] True True [] = Inr (R, Some [[bone]], Some [])"
    by blast
  then have "orbit [[[Ball 1 0]]] [Ball 1 2] False = Inr ([], None)" by (simp add: orbit_def)
  then show ?thesis by (simp add: certified_zero_vec_def contains_def)
qed

section \<open>Conservative arithmetic\<close>

lemma contains_rad_nonneg: "contains x b \<Longrightarrow> 0 \<le> rad b"
  by (simp add: contains_def)

lemma contains_bzero [simp]: "contains 0 bzero"
  by (simp add: contains_def bzero_def)

lemma contains_bone [simp]: "contains 1 bone"
  by (simp add: contains_def bone_def)

lemma contains_badd:
  "contains x a \<Longrightarrow> contains y b \<Longrightarrow> contains (x + y) (badd a b)"
  by (simp add: contains_def badd_def)

lemma contains_bsub:
  "contains x a \<Longrightarrow> contains y b \<Longrightarrow> contains (x - y) (bsub a b)"
  by (simp add: contains_def bsub_def)

lemma contains_bmul:
  assumes "contains x a" and "contains y b"
  shows "contains (x * y) (bmul a b)"
proof -
  define dx where "dx = x - mid a"
  define dy where "dy = y - mid b"
  have dx: "\<bar>dx\<bar> \<le> rad a" and dy: "\<bar>dy\<bar> \<le> rad b"
    using assms by (simp_all add: contains_def dx_def dy_def)
  have ra: "0 \<le> rad a" and rb: "0 \<le> rad b"
    using assms by (auto dest: contains_rad_nonneg)
  have "x * y - mid a * mid b = mid a * dy + mid b * dx + dx * dy"
    by (simp add: dx_def dy_def algebra_simps)
  then have "\<bar>x * y - mid a * mid b\<bar> \<le> \<bar>mid a * dy\<bar> + \<bar>mid b * dx\<bar> + \<bar>dx * dy\<bar>"
    by simp
  also have "\<dots> = \<bar>mid a\<bar> * \<bar>dy\<bar> + \<bar>mid b\<bar> * \<bar>dx\<bar> + \<bar>dx\<bar> * \<bar>dy\<bar>"
    by (simp add: abs_mult)
  also have "\<dots> \<le> \<bar>mid a\<bar> * rad b + \<bar>mid b\<bar> * rad a + rad a * rad b"
    using dx dy ra rb
    by (intro add_mono mult_left_mono mult_mono) auto
  finally show ?thesis by (simp add: contains_def bmul_def)
qed

lemma nonzero_contains: "is_nonzero b \<Longrightarrow> contains y b \<Longrightarrow> y \<noteq> 0"
  by (auto simp: is_nonzero_def contains_def)

lemma contains_binv:
  assumes nz: "is_nonzero b" and y: "contains y b"
  shows "contains (1 / y) (binv b)"
proof -
  define m where "m = mid b"
  define r where "r = rad b"
  define D where "D = m * m - r * r"
  have r0: "0 \<le> r" using y by (simp add: r_def contains_rad_nonneg)
  have rm: "r < \<bar>m\<bar>" using nz by (simp add: is_nonzero_def m_def r_def)
  have ym: "\<bar>y - m\<bar> \<le> r" using y by (simp add: contains_def m_def r_def)
  have D: "D = (\<bar>m\<bar> - r) * (\<bar>m\<bar> + r)" by (simp add: D_def algebra_simps)
  have Dpos: "0 < D" unfolding D using rm r0 by (intro mult_pos_pos) auto
  have y0: "y \<noteq> 0" using nz y by (rule nonzero_contains)
  have key: "\<bar>D - m * y\<bar> \<le> r * \<bar>y\<bar>"
  proof -
    define t where "t = D - m * y"
    define s where "s = r * y"
    have yb: "m - r \<le> y" "y \<le> m + r" using ym by auto
    have e1: "t - s = (m + r) * (m - r - y)" by (simp add: t_def s_def D_def algebra_simps)
    have e2: "t + s = (m - r) * (m + r - y)" by (simp add: t_def s_def D_def algebra_simps)
    show ?thesis
    proof (cases "0 \<le> m")
      case True
      then have mp: "r < m" using rm by simp
      have ypos: "0 < y" using mp yb by simp
      have "(m + r) * (m - r - y) \<le> 0"
        using mp r0 yb by (intro mult_nonneg_nonpos) auto
      with e1 have u: "t \<le> s" by simp
      have "0 \<le> (m - r) * (m + r - y)"
        using mp yb by (intro mult_nonneg_nonneg) auto
      with e2 have l: "- t \<le> s" by simp
      from u l have "\<bar>t\<bar> \<le> s" by (rule abs_leI)
      moreover have "r * \<bar>y\<bar> = s" using ypos by (simp add: s_def)
      ultimately show ?thesis by (simp add: t_def)
    next
      case False
      then have mp: "r < - m" using rm by simp
      have yneg: "y < 0" using mp yb by simp
      have "(m - r) * (m + r - y) \<le> 0"
        using mp r0 yb by (intro mult_nonpos_nonneg) auto
      with e2 have u: "t \<le> - s" by simp
      have "0 \<le> (m + r) * (m - r - y)"
        using mp yb by (intro mult_nonpos_nonpos) auto
      with e1 have l: "- t \<le> - s" by simp
      from u l have "\<bar>t\<bar> \<le> - s" by (rule abs_leI)
      moreover have "r * \<bar>y\<bar> = - s" using yneg by (simp add: s_def)
      ultimately show ?thesis by (simp add: t_def)
    qed
  qed
  have "1 / y - m / D = (D - m * y) / (y * D)"
    using y0 Dpos by (simp add: field_simps)
  then have "\<bar>1 / y - m / D\<bar> = \<bar>D - m * y\<bar> / (\<bar>y\<bar> * D)"
    using Dpos by (simp add: abs_mult)
  also have "\<dots> \<le> (r * \<bar>y\<bar>) / (\<bar>y\<bar> * D)"
    using key Dpos y0 by (intro divide_right_mono) auto
  also have "\<dots> = r / D" using y0 by simp
  finally show ?thesis by (simp add: contains_def binv_def m_def r_def D_def)
qed

lemma contains_bdiv:
  assumes "contains x a" and "is_nonzero b" and "contains y b"
  shows "contains (x / y) (bdiv a b)"
proof -
  have "contains (x * (1 / y)) (bmul a (binv b))"
    using assms by (intro contains_bmul contains_binv)
  then show ?thesis by (simp add: bdiv_def)
qed

lemma contains_foldl_badd:
  "contains x a \<Longrightarrow> list_all2 contains xs bs \<Longrightarrow>
     contains (x + sum_list xs) (foldl badd a bs)"
proof (induction xs bs arbitrary: x a rule: list_induct2')
  case (4 y ys b bs)
  then have "contains ((x + y) + sum_list ys) (foldl badd (badd a b) bs)"
    by (intro "4.IH" contains_badd) auto
  then show ?case by (simp add: add.assoc)
qed auto

lemma contains_bsum: "list_all2 contains xs bs \<Longrightarrow> contains (sum_list xs) (bsum bs)"
  using contains_foldl_badd[of 0 bzero xs bs] by (simp add: bsum_def)

lemma vcontains_length: "vcontains x v \<Longrightarrow> length x = length v"
  by (simp add: vcontains_def list_all2_lengthD)

lemma vcontains_nth: "vcontains x v \<Longrightarrow> k < length v \<Longrightarrow> contains (x ! k) (v ! k)"
  by (simp add: vcontains_def list_all2_conv_all_nth)

lemma vcontainsI:
  "length x = length v \<Longrightarrow> (\<And>k. k < length v \<Longrightarrow> contains (x ! k) (v ! k)) \<Longrightarrow> vcontains x v"
  by (simp add: vcontains_def list_all2_conv_all_nth)

lemma mcontains_length: "mcontains A M \<Longrightarrow> length A = length M"
  by (simp add: mcontains_def list_all2_lengthD)

lemma mcontains_nth: "mcontains A M \<Longrightarrow> i < length M \<Longrightarrow> vcontains (A ! i) (M ! i)"
  by (simp add: mcontains_def list_all2_conv_all_nth)

lemma mcontainsI:
  "length A = length M \<Longrightarrow> (\<And>i. i < length M \<Longrightarrow> vcontains (A ! i) (M ! i)) \<Longrightarrow> mcontains A M"
  by (simp add: mcontains_def list_all2_conv_all_nth)

lemma contains_bdot:
  assumes "vcontains x u" and "vcontains y v" and "length u = length v"
  shows "contains (rdot x y) (bdot u v)"
proof -
  have len: "length x = length u" using assms(1) by (rule vcontains_length)
  have "list_all2 contains (map (\<lambda>k. x ! k * y ! k) [0..<length u])
                           (map (\<lambda>k. bmul (u ! k) (v ! k)) [0..<length u])"
    using assms by (auto simp: list_all2_conv_all_nth intro!: contains_bmul vcontains_nth)
  from contains_bsum[OF this] show ?thesis by (simp add: rdot_def bdot_def len)
qed

section \<open>Row operations\<close>

lemma is_mat_row: "is_mat m n A \<Longrightarrow> i < m \<Longrightarrow> length (A ! i) = n"
  by (simp add: is_mat_def)

lemma is_mat_length: "is_mat m n A \<Longrightarrow> length A = m"
  by (simp add: is_mat_def)

lemma is_matI: "length A = m \<Longrightarrow> (\<And>i. i < m \<Longrightarrow> length (A ! i) = n) \<Longrightarrow> is_mat m n A"
  by (auto simp: is_mat_def in_set_conv_nth)

lemma nth_row_elim:
  "i < length T \<Longrightarrow>
     row_elim m c s i T ! l =
       (if l = i then map (\<lambda>k. bsub (T ! i ! k) (bmul c (T ! s ! k))) [0..<m] else T ! l)"
  by (simp add: row_elim_def)

lemma fold_row_elim_nth:
  assumes "distinct ls" and "s \<notin> set ls" and "\<forall>l \<in> set ls. l < length T"
  shows "fold (\<lambda>l T. row_elim m (col ! l) s l T) ls T ! l =
           (if l \<in> set ls then map (\<lambda>k. bsub (T ! l ! k) (bmul (col ! l) (T ! s ! k))) [0..<m]
            else T ! l)"
  using assms
proof (induction ls arbitrary: T)
  case Nil
  show ?case by simp
next
  case (Cons x xs)
  let ?T' = "row_elim m (col ! x) s x T"
  have x: "x < length T" "x \<notin> set xs" "s \<noteq> x" using Cons.prems by auto
  have IH: "fold (\<lambda>l T. row_elim m (col ! l) s l T) xs ?T' ! l =
           (if l \<in> set xs then map (\<lambda>k. bsub (?T' ! l ! k) (bmul (col ! l) (?T' ! s ! k))) [0..<m]
            else ?T' ! l)"
    using Cons.prems by (intro Cons.IH) auto
  show ?case
  proof (cases "l \<in> set xs")
    case True
    then have "l \<noteq> x" using x by auto
    then show ?thesis using True IH x by (simp add: nth_row_elim)
  next
    case False
    then show ?thesis using IH x by (simp add: nth_row_elim)
  qed
qed

lemma mat_vec_nth: "l < length T \<Longrightarrow> mat_vec T v ! l = bdot (T ! l) v"
  by (simp add: mat_vec_def)

lemma length_mat_vec [simp]: "length (mat_vec T v) = length T"
  by (simp add: mat_vec_def)

lemma length_column [simp]: "length (column A j) = length A"
  by (simp add: column_def)

lemma column_nth: "i < length A \<Longrightarrow> column A j ! i = A ! i ! j"
  by (simp add: column_def)

lemma vcontains_column:
  assumes "mcontains A mat" and "is_mat m n mat" and "j < n"
  shows "vcontains (column A j) (column mat j)"
proof (rule vcontainsI)
  show "length (column A j) = length (column mat j)"
    using assms(1) by (simp add: mcontains_length)
next
  fix k assume "k < length (column mat j)"
  then have k: "k < length mat" by simp
  then have "k < m" using assms(2) by (simp add: is_mat_def)
  from mcontains_nth[OF assms(1) k] have "vcontains (A ! k) (mat ! k)" .
  moreover have "length (mat ! k) = n" using assms(2) \<open>k < m\<close> by (rule is_mat_row)
  ultimately have "contains (A ! k ! j) (mat ! k ! j)" using assms(3) by (simp add: vcontains_nth)
  then show "contains (column A j ! k) (column mat j ! k)"
    using k mcontains_length[OF assms(1)] by (simp add: column_nth)
qed

lemma mcontains_is_mat: "mcontains A M \<Longrightarrow> is_mat m n M \<Longrightarrow> is_mat m n A"
  by (rule is_matI) (auto simp: mcontains_length is_mat_length dest!: mcontains_nth dest: vcontains_length is_mat_row)

lemma rdot_map: "rdot (map f [0..<m]) v = sum_list (map (\<lambda>k. f k * v ! k) [0..<m])"
proof -
  have eq: "map (\<lambda>k. map f [0..<m] ! k * v ! k) [0..<m] = map (\<lambda>k. f k * v ! k) [0..<m]"
    by simp
  show ?thesis by (simp only: rdot_def length_map length_upt diff_zero eq)
qed

lemma rdot_len: "length u = m \<Longrightarrow> rdot u v = sum_list (map (\<lambda>k. u ! k * v ! k) [0..<m])"
  by (simp add: rdot_def)

lemma rdot_scale:
  "length u = m \<Longrightarrow> rdot (map (\<lambda>k. u ! k / c) [0..<m]) v = rdot u v / c"
proof -
  assume u: "length u = m"
  have "rdot (map (\<lambda>k. u ! k / c) [0..<m]) v = sum_list (map (\<lambda>k. (1 / c) * (u ! k * v ! k)) [0..<m])"
    by (simp add: rdot_map)
  also have "\<dots> = (1 / c) * sum_list (map (\<lambda>k. u ! k * v ! k) [0..<m])"
    by (rule sum_list_const_mult)
  finally show ?thesis using u by (simp add: rdot_len)
qed

lemma rdot_axpy:
  "length a = m \<Longrightarrow> length b = m \<Longrightarrow>
     rdot (map (\<lambda>k. a ! k - c * b ! k) [0..<m]) v = rdot a v - c * rdot b v"
proof -
  assume a: "length a = m" and b: "length b = m"
  have "rdot (map (\<lambda>k. a ! k - c * b ! k) [0..<m]) v
        = sum_list (map (\<lambda>k. a ! k * v ! k - c * (b ! k * v ! k)) [0..<m])"
    by (simp add: rdot_map algebra_simps)
  also have "\<dots> = sum_list (map (\<lambda>k. a ! k * v ! k) [0..<m])
                  - sum_list (map (\<lambda>k. c * (b ! k * v ! k)) [0..<m])"
    by (rule sum_list_subtractf)
  also have "sum_list (map (\<lambda>k. c * (b ! k * v ! k)) [0..<m])
             = c * sum_list (map (\<lambda>k. b ! k * v ! k) [0..<m])"
    by (rule sum_list_const_mult)
  finally show ?thesis using a b by (simp add: rdot_len)
qed

section \<open>One column of the elimination\<close>

lemma pivot_step_Some:
  assumes "find_pivot (length p) m (mat_vec T (column mat j)) = Some i" and "j \<notin> fst ` set p"
  shows "pivot_step mat m j (T, p) =
     (let r = length p; col = mat_vec T (column mat j);
          T1 = T[i := T ! r, r := T ! i];
          col1 = col[i := col ! r, r := col ! i];
          T2 = T1[r := map (\<lambda>k. bdiv (T1 ! r ! k) (col1 ! r)) [0..<m]]
      in (fold (\<lambda>l T. row_elim m (col1 ! l) r l T) [r + 1..<m] T2, p @ [(j, r)]))"
  using assms by (simp add: pivot_step_def Let_def)

lemma pivot_step_rows:
  assumes fp: "find_pivot (length p) m (mat_vec T (column mat j)) = Some i"
    and j: "j \<notin> fst ` set p" and T: "length T = m" and l: "l < m"
  defines "r \<equiv> length p" and "col \<equiv> mat_vec T (column mat j)"
  defines "piv \<equiv> map (\<lambda>k. bdiv (T ! i ! k) (col ! i)) [0..<m]"
  shows "fst (pivot_step mat m j (T, p)) ! l =
     (if l < r then T ! l
      else if l = r then piv
      else map (\<lambda>k. bsub (T ! (if l = i then r else l) ! k)
                        (bmul (col ! (if l = i then r else l)) (piv ! k))) [0..<m])"
proof -
  from find_pivot_Some[OF fp] have i: "r \<le> i" "i < m" by (simp_all add: r_def)
  define T1 where "T1 = T[i := T ! r, r := T ! i]"
  define col1 where "col1 = col[i := col ! r, r := col ! i]"
  define T2 where "T2 = T1[r := map (\<lambda>k. bdiv (T1 ! r ! k) (col1 ! r)) [0..<m]]"
  have lc: "length col = m" by (simp add: col_def T)
  have T1r: "T1 ! r = T ! i" using i T by (simp add: T1_def)
  have c1r: "col1 ! r = col ! i" using i lc by (simp add: col1_def)
  have T1l: "T1 ! l = T ! (if l = i then r else if l = r then i else l)"
    using i T l by (auto simp: T1_def nth_list_update)
  have c1l: "col1 ! l = col ! (if l = i then r else if l = r then i else l)"
    using i lc l by (auto simp: col1_def nth_list_update)
  have lT2: "length T2 = m" by (simp add: T2_def T1_def T)
  have T2r: "T2 ! r = piv" using i T by (simp add: T2_def T1_def T1r[unfolded T1_def] c1r piv_def)
  have T2l: "l \<noteq> r \<Longrightarrow> T2 ! l = T1 ! l" by (simp add: T2_def)
  have res: "fst (pivot_step mat m j (T, p)) = fold (\<lambda>l T. row_elim m (col1 ! l) r l T) [r + 1..<m] T2"
    using pivot_step_Some[OF fp j]
    by (simp add: Let_def T1_def col1_def T2_def r_def col_def)
  have nth: "fold (\<lambda>l T. row_elim m (col1 ! l) r l T) [r + 1..<m] T2 ! l =
           (if l \<in> set [r + 1..<m] then map (\<lambda>k. bsub (T2 ! l ! k) (bmul (col1 ! l) (T2 ! r ! k))) [0..<m]
            else T2 ! l)"
    by (rule fold_row_elim_nth) (auto simp: lT2)
  show ?thesis
  proof (cases "l < r")
    case True
    then show ?thesis using res nth T2l T1l i by simp
  next
    case False
    show ?thesis
    proof (cases "l = r")
      case True
      then show ?thesis using res nth T2r by simp
    next
      case ne: False
      with False have gt: "r < l" by simp
      then have "l \<in> set [r + 1..<m]" using l by simp
      then show ?thesis using res nth T2l[OF ne] T1l c1l T2r gt ne by simp
    qed
  qed
qed

lemma pivots_wf_snd_less: "pivots_wf m n p \<Longrightarrow> jp \<in> set p \<Longrightarrow> snd jp < length p"
proof -
  assume wf: "pivots_wf m n p" and "jp \<in> set p"
  then have "snd jp \<in> set (map snd p)" by simp
  also have "map snd p = [0..<length p]" using wf by (simp add: pivots_wf_def)
  finally show ?thesis by simp
qed

lemma pivots_wf_append:
  assumes "pivots_wf m n p" and "j \<notin> fst ` set p" and "j < n" and "length p < m"
  shows "pivots_wf m n (p @ [(j, length p)])"
  using assms by (auto simp: pivots_wf_def)

lemma pivot_step_inv:
  assumes mat: "is_mat m n mat" and A: "mcontains A mat" and j: "j < n"
    and inv: "elim_inv m n A r0 (fst Tp) (snd Tp)"
  shows "elim_inv m n A r0 (fst (pivot_step mat m j Tp)) (snd (pivot_step mat m j Tp))"
proof -
  obtain T p where Tp: "Tp = (T, p)" by (cases Tp)
  define r where "r = length p"
  define col where "col = mat_vec T (column mat j)"
  from inv Tp obtain Tr where T: "is_mat m m T" and wf: "pivots_wf m n p" and r0: "r0 \<le> r"
    and TrT: "mcontains Tr T" and unit: "\<forall>i<r0. Tr ! i = unit_row m i"
    and ex: "pivots_exact m Tr A p"
    by (auto simp: elim_inv_def r_def)
  have lT: "length T = m" using T by (rule is_mat_length)
  have Trm: "is_mat m m Tr" using TrT T by (rule mcontains_is_mat)
  have lA: "length A = m" using A mat by (simp add: mcontains_length is_mat_length)
  show ?thesis
  proof (cases "j \<notin> fst ` set p \<and> find_pivot r m col \<noteq> None")
    case False
    then have "pivot_step mat m j (T, p) = (T, p)"
      by (auto simp: pivot_step_def Let_def r_def col_def)
    then show ?thesis using inv Tp by simp
  next
    case True
    then obtain i where jn: "j \<notin> fst ` set p" and fp: "find_pivot r m col = Some i" by auto
    from find_pivot_Some[OF fp] have i: "r \<le> i" "i < m" and nz: "is_nonzero (col ! i)" by simp_all
    have rm: "r < m" using i by simp
    define c where "c = (\<lambda>l. rdot (Tr ! l) (column A j))"
    have cc: "contains (c l) (col ! l)" if "l < m" for l
    proof -
      have "vcontains (Tr ! l) (T ! l)" using TrT that lT by (simp add: mcontains_nth)
      moreover have "vcontains (column A j) (column mat j)" using A mat j by (rule vcontains_column)
      moreover have "length (T ! l) = length (column mat j)"
        using T mat that by (simp add: is_mat_row is_mat_length)
      ultimately have "contains (rdot (Tr ! l) (column A j)) (bdot (T ! l) (column mat j))"
        by (rule contains_bdot)
      then show ?thesis using that lT by (simp add: c_def col_def mat_vec_nth)
    qed
    have ci: "c i \<noteq> 0" using nz cc[OF i(2)] by (rule nonzero_contains)
    define sw where "sw = (\<lambda>l. if l = i then r else l)"
    have sw: "sw l < m" "r \<le> sw l" if "r < l" "l < m" for l
      using that i by (auto simp: sw_def)
    define piv where "piv = map (\<lambda>k. bdiv (T ! i ! k) (col ! i)) [0..<m]"
    define rpiv where "rpiv = map (\<lambda>k. Tr ! i ! k / c i) [0..<m]"
    define T' where "T' = fst (pivot_step mat m j (T, p))"
    define Tr' where "Tr' = map (\<lambda>l. if l < r then Tr ! l else if l = r then rpiv
                       else map (\<lambda>k. Tr ! sw l ! k - c (sw l) * rpiv ! k) [0..<m]) [0..<m]"
    have p': "snd (pivot_step mat m j (T, p)) = p @ [(j, r)]"
      using pivot_step_Some[of p m T mat j i] fp jn by (simp add: Let_def r_def col_def)
    have rows: "T' ! l = (if l < r then T ! l else if l = r then piv
          else map (\<lambda>k. bsub (T ! sw l ! k) (bmul (col ! sw l) (piv ! k))) [0..<m])" if "l < m" for l
      using pivot_step_rows[of p m T mat j i l] fp jn lT that
      by (simp add: T'_def r_def col_def piv_def sw_def)
    have lT': "length T' = m" by (simp add: T'_def lT)
    have T'm: "is_mat m m T'"
    proof (rule is_matI)
      show "length T' = m" by (rule lT')
      fix l assume "l < m"
      then show "length (T' ! l) = m" using T by (simp add: rows piv_def is_mat_row)
    qed
    have lTr: "length (Tr ! l) = m" if "l < m" for l using Trm that by (rule is_mat_row)
    have lTl: "length (T ! l) = m" if "l < m" for l using T that by (rule is_mat_row)
    have ent: "contains (Tr ! l ! k) (T ! l ! k)" if "l < m" "k < m" for l k
    proof -
      have "vcontains (Tr ! l) (T ! l)" using TrT that lT by (simp add: mcontains_nth)
      then show ?thesis using that lTl by (simp add: vcontains_nth)
    qed
    have pivk: "contains (rpiv ! k) (piv ! k)" if "k < m" for k
      using that ent[OF i(2) that] nz cc[OF i(2)]
      by (simp add: rpiv_def piv_def contains_bdiv)
    have cont: "mcontains Tr' T'"
    proof (rule mcontainsI)
      show "length Tr' = length T'" by (simp add: Tr'_def lT')
      fix l assume "l < length T'"
      then have l: "l < m" by (simp add: lT')
      show "vcontains (Tr' ! l) (T' ! l)"
      proof (cases "l < r")
        case True
        then show ?thesis using l TrT lT by (simp add: Tr'_def rows mcontains_nth)
      next
        case False
        show ?thesis
        proof (cases "l = r")
          case True
          have "vcontains rpiv piv"
          proof (rule vcontainsI)
            show "length rpiv = length piv" by (simp add: rpiv_def piv_def)
            fix k assume "k < length piv"
            then have "k < m" by (simp add: piv_def)
            then show "contains (rpiv ! k) (piv ! k)" by (rule pivk)
          qed
          then show ?thesis using True l by (simp add: Tr'_def rows)
        next
          case ne: False
          with False have gt: "r < l" by simp
          have "vcontains (map (\<lambda>k. Tr ! sw l ! k - c (sw l) * rpiv ! k) [0..<m])
                          (map (\<lambda>k. bsub (T ! sw l ! k) (bmul (col ! sw l) (piv ! k))) [0..<m])"
            by (rule vcontainsI)
               (auto intro!: contains_bsub contains_bmul ent cc pivk sw[OF gt l])
          then show ?thesis using gt ne False l by (simp add: Tr'_def rows)
        qed
      qed
    qed
    define E where "E = (\<lambda>l j'. rdot (Tr ! l) (column A j'))"
    have Er: "rdot (Tr' ! r) (column A j') = E i j' / c i" for j'
      using rm lTr[OF i(2)] by (simp add: Tr'_def rpiv_def rdot_scale E_def)
    have lrpiv: "length rpiv = m" by (simp add: rpiv_def)
    have El: "rdot (Tr' ! l) (column A j') = E (sw l) j' - c (sw l) * (E i j' / c i)"
      if "r < l" "l < m" for l j'
    proof -
      have "Tr' ! l = map (\<lambda>k. Tr ! sw l ! k - c (sw l) * rpiv ! k) [0..<m]"
        using that by (simp add: Tr'_def)
      moreover have "length (Tr ! sw l) = m" using sw(1)[OF that] by (rule lTr)
      ultimately have "rdot (Tr' ! l) (column A j') = rdot (Tr ! sw l) (column A j') - c (sw l) * rdot rpiv (column A j')"
        using lrpiv by (simp add: rdot_axpy)
      moreover have "rdot rpiv (column A j') = E i j' / c i"
        using lTr[OF i(2)] by (simp add: rpiv_def rdot_scale E_def)
      ultimately show ?thesis by (simp add: E_def)
    qed
    have Elow: "rdot (Tr' ! l) (column A j') = E l j'" if "l < r" for l j'
      using that rm by (simp add: Tr'_def E_def)
    have exact': "pivots_exact m Tr' A (p @ [(j, r)])"
      unfolding pivots_exact_def
    proof (intro ballI conjI allI impI)
      fix jp assume jp: "jp \<in> set (p @ [(j, r)])"
      show "rdot (Tr' ! snd jp) (column A (fst jp)) = 1"
      proof (cases "jp \<in> set p")
        case True
        from pivots_wf_snd_less[OF wf True] have "snd jp < r" by (simp add: r_def)
        then show ?thesis using ex True by (simp add: Elow E_def pivots_exact_def)
      next
        case False
        with jp have "jp = (j, r)" by simp
        then show ?thesis using ci by (simp add: Er E_def c_def)
      qed
    next
      fix jp l assume jp: "jp \<in> set (p @ [(j, r)])" and l: "snd jp < l \<and> l < m"
      show "rdot (Tr' ! l) (column A (fst jp)) = 0"
      proof (cases "jp \<in> set p")
        case True
        from pivots_wf_snd_less[OF wf True] have lt: "snd jp < r" by (simp add: r_def)
        have z: "E l' (fst jp) = 0" if "snd jp < l'" "l' < m" for l'
          using ex True that by (auto simp: pivots_exact_def E_def)
        consider "l < r" | "l = r" | "r < l" by linarith
        then show ?thesis
        proof cases
          case 1
          then show ?thesis using z l by (simp add: Elow)
        next
          case 2
          have "E i (fst jp) = 0" using lt i by (intro z) auto
          then show ?thesis using 2 by (simp add: Er)
        next
          case 3
          have "E i (fst jp) = 0" using lt i by (intro z) auto
          moreover have "E (sw l) (fst jp) = 0"
            using lt sw[OF 3] l by (intro z) auto
          ultimately show ?thesis using 3 l by (simp add: El)
        qed
      next
        case False
        with jp have e: "jp = (j, r)" by simp
        with l have gt: "r < l" "l < m" by simp_all
        have "E (sw l) j = c (sw l)" "E i j = c i" by (simp_all add: E_def c_def)
        then show ?thesis using e gt ci by (simp add: El)
      qed
    qed
    have unit': "\<forall>i<r0. Tr' ! i = unit_row m i"
      using unit r0 rm by (simp add: Tr'_def)
    have "pivots_wf m n (p @ [(j, r)])"
      unfolding r_def using wf jn j rm[unfolded r_def] by (rule pivots_wf_append)
    then have "elim_inv m n A r0 T' (p @ [(j, r)])"
      unfolding elim_inv_def using T'm r0 cont unit' exact' by (auto simp: r_def)
    then show ?thesis using Tp p' by (simp add: T'_def)
  qed
qed

section \<open>Products, pivot entries and determinants\<close>

lemma is_mat_identity: "is_mat m m (identity_matrix m)"
  by (rule is_matI) (simp_all add: identity_matrix_def)

lemma mcontains_identity: "mcontains (ridentity m) (identity_matrix m)"
  by (rule mcontainsI)
     (auto simp: ridentity_def identity_matrix_def unit_row_def intro!: vcontainsI)

lemma elim_inv_init: "elim_inv m n A 0 (identity_matrix m) []"
  unfolding elim_inv_def
  using is_mat_identity mcontains_identity
  by (auto simp: pivots_wf_def pivots_exact_def)

lemma pivot_fold_inv:
  assumes "is_mat m n mat" and "mcontains A mat" and "\<forall>j \<in> set js. j < n"
    and "elim_inv m n A r0 (fst Tp) (snd Tp)"
  shows "elim_inv m n A r0 (fst (fold (pivot_step mat m) js Tp)) (snd (fold (pivot_step mat m) js Tp))"
  by (rule fold_invariant[where P = "\<lambda>s. elim_inv m n A r0 (fst s) (snd s)"])
     (use assms pivot_step_inv in auto)

lemma ncols_is_mat: "is_mat m n A \<Longrightarrow> 0 < m \<Longrightarrow> ncols A = n"
  by (cases A) (auto simp: is_mat_def ncols_def)

lemma nrows_is_mat: "is_mat m n A \<Longrightarrow> nrows A = m"
  by (simp add: is_mat_def nrows_def)

lemma mcontains_mat_mul:
  assumes TrT: "mcontains Tr T" and T: "is_mat m m T" and A: "mcontains A mat" and mat: "is_mat m n mat"
  shows "mcontains (rmat_mul Tr A) (mat_mul T mat)"
proof (cases "m = 0")
  case True
  then show ?thesis using TrT T by (simp add: mcontains_def is_mat_def rmat_mul_def mat_mul_def)
next
  case False
  have An: "is_mat m n A" using A mat by (rule mcontains_is_mat)
  have nc: "ncols A = n" "ncols mat = n" using An mat False by (simp_all add: ncols_is_mat)
  show ?thesis
  proof (rule mcontainsI)
    show "length (rmat_mul Tr A) = length (mat_mul T mat)"
      using TrT by (simp add: rmat_mul_def mat_mul_def mcontains_length)
    fix i assume "i < length (mat_mul T mat)"
    then have i: "i < length T" by (simp add: mat_mul_def)
    then have im: "i < m" using T by (simp add: is_mat_length)
    have iTr: "i < length Tr" using i TrT by (simp add: mcontains_length)
    have row: "vcontains (Tr ! i) (T ! i)" using TrT i by (rule mcontains_nth)
    have "vcontains (map (\<lambda>j. rdot (Tr ! i) (column A j)) [0..<n])
                    (map (\<lambda>j. bdot (T ! i) (column mat j)) [0..<n])"
    proof (rule vcontainsI)
      show "length (map (\<lambda>j. rdot (Tr ! i) (column A j)) [0..<n])
            = length (map (\<lambda>j. bdot (T ! i) (column mat j)) [0..<n])" by simp
      fix j assume "j < length (map (\<lambda>j. bdot (T ! i) (column mat j)) [0..<n])"
      then have j: "j < n" by simp
      have "vcontains (column A j) (column mat j)" using A mat j by (rule vcontains_column)
      moreover have "length (T ! i) = length (column mat j)"
        using T mat im by (simp add: is_mat_row is_mat_length)
      ultimately have "contains (rdot (Tr ! i) (column A j)) (bdot (T ! i) (column mat j))"
        using row by (intro contains_bdot)
      then show "contains (map (\<lambda>j. rdot (Tr ! i) (column A j)) [0..<n] ! j)
                          (map (\<lambda>j. bdot (T ! i) (column mat j)) [0..<n] ! j)"
        using j by simp
    qed
    then show "vcontains (rmat_mul Tr A ! i) (mat_mul T mat ! i)"
      using i iTr nc by (simp add: rmat_mul_def mat_mul_def)
  qed
qed

lemma rmat_mul_nth:
  "i < length Tr \<Longrightarrow> j < ncols A \<Longrightarrow> rmat_mul Tr A ! i ! j = rdot (Tr ! i) (column A j)"
  by (simp add: rmat_mul_def)

lemma mcontains_set_entry:
  assumes "mcontains X B" and "i < length B \<Longrightarrow> j < length (B ! i) \<Longrightarrow> contains (X ! i ! j) v"
  shows "mcontains X (set_entry i j v B)"
proof (rule mcontainsI)
  show "length X = length (set_entry i j v B)" using assms(1) by (simp add: mcontains_length)
  fix l assume "l < length (set_entry i j v B)"
  then have l: "l < length B" by simp
  have row: "vcontains (X ! l) (B ! l)" using assms(1) l by (rule mcontains_nth)
  show "vcontains (X ! l) (set_entry i j v B ! l)"
  proof (cases "l = i")
    case False
    then show ?thesis using row by (simp add: set_entry_def)
  next
    case True
    have "vcontains (X ! i) ((B ! i)[j := v])"
    proof (rule vcontainsI)
      show "length (X ! i) = length ((B ! i)[j := v])"
        using row True by (simp add: vcontains_length)
      fix k assume "k < length ((B ! i)[j := v])"
      then have k: "k < length (B ! i)" by simp
      show "contains (X ! i ! k) ((B ! i)[j := v] ! k)"
      proof (cases "k = j")
        case True
        then show ?thesis using assms(2) l \<open>l = i\<close> k by simp
      next
        case False
        then show ?thesis using row \<open>l = i\<close> k by (simp add: vcontains_nth)
      qed
    qed
    then show ?thesis using True l by (simp add: set_entry_def)
  qed
qed

lemma mcontains_set_pivot:
  assumes "mcontains X B" and "X ! snd jp ! fst jp = 1"
    and "\<forall>i. snd jp < i \<and> i < m \<longrightarrow> X ! i ! fst jp = 0"
  shows "mcontains X (set_pivot m jp B)"
proof -
  have "mcontains X (set_entry (snd jp) (fst jp) bone B)"
    using assms(1,2) by (intro mcontains_set_entry) auto
  moreover have "mcontains X (fold (\<lambda>i R. set_entry i (fst jp) bzero R) ls B')"
    if "mcontains X B'" "\<forall>i \<in> set ls. snd jp < i \<and> i < m" for ls B'
    using that
  proof (induction ls arbitrary: B')
    case Nil
    then show ?case by simp
  next
    case (Cons a ls)
    have "mcontains X (set_entry a (fst jp) bzero B')"
      using Cons.prems assms(3) by (intro mcontains_set_entry) auto
    then show ?case using Cons by simp
  qed
  ultimately show ?thesis by (simp add: set_pivot_def)
qed

lemma mcontains_set_pivot_fold:
  assumes "mcontains X B"
    and "\<forall>jp \<in> set p. X ! snd jp ! fst jp = 1 \<and> (\<forall>i. snd jp < i \<and> i < m \<longrightarrow> X ! i ! fst jp = 0)"
  shows "mcontains X (fold (set_pivot m) p B)"
  using assms
proof (induction p arbitrary: B)
  case Nil
  then show ?case by simp
next
  case (Cons jp p)
  have "mcontains X (set_pivot m jp B)" using Cons.prems by (intro mcontains_set_pivot) auto
  then show ?case using Cons by simp
qed

lemma vcontains_del_col: "vcontains x v \<Longrightarrow> vcontains (del_col k x) (del_col k v)"
  by (simp add: vcontains_def del_col_def list_all2_appendI list_all2_takeI list_all2_dropI)

lemma mcontains_del_col: "mcontains A M \<Longrightarrow> mcontains (map (del_col k) A) (map (del_col k) M)"
  by (simp add: mcontains_def list_all2_conv_all_nth vcontains_del_col)

lemma contains_bdet: "mcontains A M \<Longrightarrow> contains (rdet A) (bdet M)"
proof (induction M arbitrary: A rule: bdet.induct)
  case 1
  then show ?case by (simp add: mcontains_def)
next
  case (2 r rs)
  from "2.prems" obtain x xs where A: "A = x # xs" and x: "vcontains x r" and xs: "mcontains xs rs"
    by (auto simp: mcontains_def list_all2_Cons2)
  have len: "length x = length r" using x by (rule vcontains_length)
  have "list_all2 contains
          (map (\<lambda>k. (if even k then x ! k else 0 - x ! k) * rdet (map (del_col k) xs)) [0..<length r])
          (map (\<lambda>k. bmul (if even k then r ! k else bsub bzero (r ! k)) (bdet (map (del_col k) rs))) [0..<length r])"
  proof (simp add: list_all2_conv_all_nth, intro allI impI conjI)
    fix k assume k: "k < length r"
    have IH: "contains (rdet (map (del_col k) xs)) (bdet (map (del_col k) rs))"
      using k xs by (intro "2.IH" mcontains_del_col) auto
    have xk: "contains (x ! k) (r ! k)" using x k by (rule vcontains_nth)
    then have "contains (0 - x ! k) (bsub bzero (r ! k))" by (intro contains_bsub) auto
    then show "even k \<Longrightarrow> contains (x ! k * rdet (map (del_col k) xs)) (bmul (r ! k) (bdet (map (del_col k) rs)))"
      and "odd k \<Longrightarrow> contains (- (x ! k * rdet (map (del_col k) xs))) (bmul (bsub bzero (r ! k)) (bdet (map (del_col k) rs)))"
      using contains_bmul[OF xk IH] contains_bmul[OF \<open>contains (0 - x ! k) (bsub bzero (r ! k))\<close> IH]
      by simp_all
  qed
  from contains_bsum[OF this] show ?case by (simp add: A len)
qed

lemma contains_zero_iff: "contains_zero b \<longleftrightarrow> contains 0 b"
  by (simp add: contains_zero_def contains_def)

section \<open>Soundness of the echelon engine\<close>

lemma ncols_le: "is_mat m n mat \<Longrightarrow> ncols mat \<le> n"
  by (cases mat) (auto simp: is_mat_def ncols_def)

lemma REF_elim_inv:
  assumes mat: "is_mat m n mat" and A: "mcontains A mat"
    and rep: "replay mat m (ncols mat) (length pp) pp (identity_matrix m) = Inr T0"
    and inv0: "elim_inv m n A r0 T0 pp"
    and el: "REF_elim mat pp = Inr (T, p)"
  shows "elim_inv m n A r0 T p"
proof -
  have m: "nrows mat = m" using mat by (rule nrows_is_mat)
  from el rep m have f: "fold (pivot_step mat m) [0..<ncols mat] (T0, pp) = (T, p)"
    by (simp add: REF_elim_def Let_def)
  have "\<forall>j \<in> set [0..<ncols mat]. j < n" using ncols_le[OF mat] by auto
  from pivot_fold_inv[OF mat A this, of r0 "(T0, pp)"] inv0 f show ?thesis by simp
qed

lemma elim_inv_result:
  assumes mat: "is_mat m n mat" and A: "mcontains A mat" and inv: "elim_inv m n A r0 T p"
  shows "\<exists>Tr. mcontains Tr T \<and> mcontains (rmat_mul Tr A) (fold (set_pivot m) p (mat_mul T mat)) \<and>
              (\<forall>i<r0. Tr ! i = unit_row m i) \<and> pivots_exact m Tr A p"
proof -
  from inv obtain Tr where T: "is_mat m m T" and wf: "pivots_wf m n p"
    and TrT: "mcontains Tr T" and unit: "\<forall>i<r0. Tr ! i = unit_row m i"
    and ex: "pivots_exact m Tr A p"
    by (auto simp: elim_inv_def)
  have An: "is_mat m n A" using A mat by (rule mcontains_is_mat)
  have lTr: "length Tr = m" using TrT T by (simp add: mcontains_length is_mat_length)
  have prod: "mcontains (rmat_mul Tr A) (mat_mul T mat)"
    using TrT T A mat by (rule mcontains_mat_mul)
  have "\<forall>jp \<in> set p. rmat_mul Tr A ! snd jp ! fst jp = 1 \<and>
          (\<forall>i. snd jp < i \<and> i < m \<longrightarrow> rmat_mul Tr A ! i ! fst jp = 0)"
  proof
    fix jp assume jp: "jp \<in> set p"
    from pivots_wf_snd_less[OF wf jp] wf have s: "snd jp < m" by (simp add: pivots_wf_def)
    then have nc: "ncols A = n" using An by (simp add: ncols_is_mat)
    have f: "fst jp < ncols A" using wf jp nc by (simp add: pivots_wf_def)
    show "rmat_mul Tr A ! snd jp ! fst jp = 1 \<and>
          (\<forall>i. snd jp < i \<and> i < m \<longrightarrow> rmat_mul Tr A ! i ! fst jp = 0)"
      using ex jp s f lTr by (auto simp: pivots_exact_def rmat_mul_nth)
  qed
  from mcontains_set_pivot_fold[OF prod this] TrT unit ex show ?thesis by blast
qed

text \<open>
  Claim C1.  When \<open>REF\<close> returns a result and a transformation for a matrix of
  enclosures, every real matrix contained in the input has a transformation contained in
  \<open>T\<close> whose product with it is contained in \<open>R\<close>, and that transformation is
  invertible.
\<close>

theorem REF_transformation_sound:
  assumes "is_mat m n mat" and "mcontains A mat"
    and "REF mat True pivots [] = Inr (R, Some T, P)"
  shows "\<exists>Rr Tr. mcontains Rr R \<and> mcontains Tr T \<and> Rr = rmat_mul Tr A \<and> invertible Tr"
proof -
  have m: "nrows mat = m" using assms(1) by (rule nrows_is_mat)
  from assms(3) obtain T' p where el: "REF_elim mat [] = Inr (T', p)"
    and R: "R = fold (set_pivot (nrows mat)) p (mat_mul T' mat)"
    and S: "Some T = (if True then Some T' else None)"
    and det: "True \<longrightarrow> \<not> contains_zero (bdet T')"
    by (rule REF_Inr)
  from S have TT: "T' = T" by simp
  have "elim_inv m n A 0 T p"
    using assms(1,2) _ elim_inv_init el[unfolded TT]
    by (rule REF_elim_inv) simp
  from elim_inv_result[OF assms(1,2) this] obtain Tr where
    TrT: "mcontains Tr T" and RR: "mcontains (rmat_mul Tr A) R"
    by (auto simp: R m TT)
  from contains_bdet[OF TrT] det have "rdet Tr \<noteq> 0"
    by (auto simp: contains_zero_iff TT)
  then show ?thesis using TrT RR by (auto simp: invertible_def)
qed

lemma ex2_dims: "nrows ex2 = 2" "ncols ex2 = 2"
  by code_simp+

lemma ex2_step0: "pivot_step ex2 2 0 (identity_matrix 2, []) = (ex2_T1, ex2_p0)"
  by code_simp

lemma ex2_step1: "pivot_step ex2 2 (Suc 0) (ex2_T1, ex2_p0) = (ex2_T, ex2_p)"
  by code_simp

lemma ex2_elim: "REF_elim ex2 [] = Inr (ex2_T, ex2_p)"
  by (simp add: REF_elim_def ex2_dims upt_0_2 ex2_step0 ex2_step1)

lemma ex2_mul: "mat_mul ex2_T ex2 = ex2_TM"
  by code_simp

lemma ex2_set: "fold (set_pivot 2) ex2_p ex2_TM = ex2_R"
  by code_simp

lemma ex2_p_rows: "\<not> (\<exists>jp \<in> set ex2_p. 2 \<le> snd jp)"
  by code_simp

lemma ex2_det: "\<not> contains_zero (bdet ex2_T)"
  by code_simp

lemma ex2_REF: "REF ex2 True True [] = Inr (ex2_R, Some ex2_T, Some ex2_p)"
  by (simp only: REF_def ex2_elim ex2_dims ex2_mul ex2_set ex2_p_rows ex2_det Let_def
        sum.case prod.case if_False if_True)

lemma ex2_is_mat: "is_mat 2 2 ex2"
  by (simp add: is_mat_def ex2_def)

lemma ex2_contains: "mcontains ex2_A ex2"
  by (simp add: mcontains_def vcontains_def contains_def ex2_A_def ex2_def)

theorem REF_transformation_sound_witness:
  "\<exists>Rr Tr. mcontains Rr ex2_R \<and> mcontains Tr ex2_T \<and> Rr = rmat_mul Tr ex2_A \<and> invertible Tr"
  using REF_transformation_sound[OF ex2_is_mat ex2_contains ex2_REF] .

section \<open>The number of pivots and the rank\<close>

lemma sum_list_upt_sum: "sum_list (map f [0..<n]) = sum f {..<n}"
  by (simp add: interv_sum_list_conv_sum_set_nat atLeast0LessThan)

lemma rdot_sum: "length u = m \<Longrightarrow> rdot u v = (\<Sum>k<m. u ! k * v ! k)"
  by (simp add: rdot_len sum_list_upt_sum)

lemma pivots_wf_nth:
  assumes "pivots_wf m n p" and "k < length p"
  shows "p ! k = (map fst p ! k, k)"
proof -
  have "snd (p ! k) = map snd p ! k" using assms(2) by simp
  also have "\<dots> = k" using assms by (simp add: pivots_wf_def)
  finally show ?thesis using assms(2) by (simp add: prod_eq_iff)
qed

lemma pivot_columns_independent:
  assumes Trm: "is_mat m m Tr" and An: "is_mat m n A" and wf: "pivots_wf m n p"
    and ex: "pivots_exact m Tr A p"
  shows "indep_cols A (map fst p)"
  unfolding indep_cols_def
proof (intro allI impI)
  fix c :: "nat \<Rightarrow> real" and k
  let ?js = "map fst p"
  let ?r = "length p"
  assume "\<forall>i<length A. sum_list (map (\<lambda>k. c k * A ! i ! (?js ! k)) [0..<length ?js]) = 0"
  then have comb: "(\<Sum>k<?r. c k * A ! i ! (?js ! k)) = 0" if "i < m" for i
    using that An by (simp add: sum_list_upt_sum is_mat_length)
  define U where "U = (\<lambda>l k. rdot (Tr ! l) (column A (?js ! k)))"
  have rm: "?r \<le> m" using wf by (simp add: pivots_wf_def)
  have Uexp: "U l k = (\<Sum>i<m. Tr ! l ! i * A ! i ! (?js ! k))" if "l < m" for l k
  proof -
    have "length (Tr ! l) = m" using Trm that by (rule is_mat_row)
    then have "U l k = (\<Sum>i<m. Tr ! l ! i * column A (?js ! k) ! i)"
      by (simp add: U_def rdot_sum)
    also have "\<dots> = (\<Sum>i<m. Tr ! l ! i * A ! i ! (?js ! k))"
      using An by (intro sum.cong refl) (simp add: column_nth is_mat_length)
    finally show ?thesis .
  qed
  have rowsum: "(\<Sum>k<?r. c k * U l k) = 0" if l: "l < m" for l
  proof -
    have "(\<Sum>k<?r. c k * U l k) = (\<Sum>k<?r. \<Sum>i<m. Tr ! l ! i * (c k * A ! i ! (?js ! k)))"
      by (simp add: Uexp[OF l] sum_distrib_left mult.left_commute)
    also have "\<dots> = (\<Sum>i<m. \<Sum>k<?r. Tr ! l ! i * (c k * A ! i ! (?js ! k)))"
      by (rule sum.swap)
    also have "\<dots> = (\<Sum>i<m. Tr ! l ! i * (\<Sum>k<?r. c k * A ! i ! (?js ! k)))"
      by (simp add: sum_distrib_left)
    also have "\<dots> = 0" using comb by simp
    finally show ?thesis .
  qed
  have piv: "U k k = 1 \<and> (\<forall>l. k < l \<and> l < m \<longrightarrow> U l k = 0)" if "k < ?r" for k
  proof -
    have mem: "p ! k \<in> set p" using that by simp
    have s: "snd (p ! k) = k" and f: "fst (p ! k) = ?js ! k"
      using pivots_wf_nth[OF wf that] that by (simp_all add: prod_eq_iff)
    from ex mem have "rdot (Tr ! snd (p ! k)) (column A (fst (p ! k))) = 1 \<and>
        (\<forall>i. snd (p ! k) < i \<and> i < m \<longrightarrow> rdot (Tr ! i) (column A (fst (p ! k))) = 0)"
      unfolding pivots_exact_def by (rule bspec)
    then show ?thesis unfolding s f U_def .
  qed
  have diag: "U k k = 1" if "k < ?r" for k
    using piv[OF that] by simp
  have below: "U l k = 0" if "k < ?r" "k < l" "l < m" for l k
    using piv[OF that(1)] that by simp
  have step: "c k = 0" if k: "k < ?r" and later: "\<forall>k'. k < k' \<and> k' < ?r \<longrightarrow> c k' = 0" for k
  proof -
    have "k < m" using k rm by simp
    from rowsum[OF this] have "0 = (\<Sum>k'<?r. c k' * U k k')" by simp
    also have "\<dots> = c k * U k k + (\<Sum>k'\<in>{..<?r} - {k}. c k' * U k k')"
      using k by (intro sum.remove) auto
    also have "(\<Sum>k'\<in>{..<?r} - {k}. c k' * U k k') = 0"
    proof (rule sum.neutral, rule ballI)
      fix k' assume k': "k' \<in> {..<?r} - {k}"
      show "c k' * U k k' = 0"
      proof (cases "k' < k")
        case True
        then have "U k k' = 0" using k' \<open>k < m\<close> by (intro below) auto
        then show ?thesis by simp
      next
        case False
        with k' have "k < k' \<and> k' < ?r" by auto
        with later show ?thesis by simp
      qed
    qed
    finally show ?thesis using diag[OF k] by simp
  qed
  have down: "\<forall>k. ?r - d \<le> k \<and> k < ?r \<longrightarrow> c k = 0" for d
  proof (induction d)
    case 0
    show ?case by simp
  next
    case (Suc d)
    show ?case
    proof (intro allI impI)
      fix k assume k: "?r - Suc d \<le> k \<and> k < ?r"
      show "c k = 0"
      proof (rule step)
        show "k < ?r" using k by simp
        show "\<forall>k'. k < k' \<and> k' < ?r \<longrightarrow> c k' = 0" using Suc k by auto
      qed
    qed
  qed
  assume "k < length ?js"
  then show "c k = 0" using down[of ?r] by simp
qed

lemma rank_ge:
  assumes "length js = k" and "distinct js" and "set js \<subseteq> {..<ncols A}" and "indep_cols A js"
  shows "k \<le> rank A"
  unfolding rank_def
proof (rule Max_ge)
  let ?S = "{k. \<exists>js. length js = k \<and> distinct js \<and> set js \<subseteq> {..<ncols A} \<and> indep_cols A js}"
  have "?S \<subseteq> {..ncols A}"
  proof
    fix k assume "k \<in> ?S"
    then obtain js where js: "length js = k" "distinct js" "set js \<subseteq> {..<ncols A}" by auto
    have "k = card (set js)" using js by (simp add: distinct_card)
    also have "\<dots> \<le> card {..<ncols A}" using js(3) by (intro card_mono) auto
    finally show "k \<in> {..ncols A}" by simp
  qed
  then show "finite ?S" by (rule finite_subset) simp
  show "k \<in> ?S" using assms by blast
qed

text \<open>
  Claim C3.  The number of pivots returned by \<open>REF\<close> is at most the rank of every real
  matrix contained in the input: the pivot columns of that matrix are linearly independent.
\<close>

theorem REF_pivots_le_rank:
  assumes "is_mat m n mat" and "mcontains A mat"
    and "REF mat transformation True [] = Inr (R, S, Some p)"
  shows "length p \<le> rank A"
proof -
  from assms(3) obtain T p' where el: "REF_elim mat [] = Inr (T, p')"
    and P: "Some p = (if True then Some p' else None)"
    by (rule REF_Inr)
  from P have pp: "p' = p" by simp
  have inv: "elim_inv m n A 0 T p"
    using assms(1,2) _ elim_inv_init el[unfolded pp]
    by (rule REF_elim_inv) simp
  then obtain Tr where T: "is_mat m m T" and wf: "pivots_wf m n p"
    and TrT: "mcontains Tr T" and ex: "pivots_exact m Tr A p"
    by (auto simp: elim_inv_def)
  have Trm: "is_mat m m Tr" using TrT T by (rule mcontains_is_mat)
  have An: "is_mat m n A" using assms(2,1) by (rule mcontains_is_mat)
  have ind: "indep_cols A (map fst p)" using Trm An wf ex by (rule pivot_columns_independent)
  have sub: "set (map fst p) \<subseteq> {..<ncols A}"
  proof (cases "m = 0")
    case True
    then show ?thesis using wf by (simp add: pivots_wf_def)
  next
    case False
    then have "ncols A = n" using An by (simp add: ncols_is_mat)
    then show ?thesis using wf by (auto simp: pivots_wf_def)
  qed
  have "distinct (map fst p)" using wf by (simp add: pivots_wf_def)
  with ind sub show ?thesis by (intro rank_ge) auto
qed

theorem REF_pivots_le_rank_witness:
  "length ex2_p \<le> rank ex2_A \<and> length ex2_p = 2"
  using REF_pivots_le_rank[OF ex2_is_mat ex2_contains ex2_REF] by (simp add: ex2_p_def)

section \<open>The arguments of the echelon engine are left alone\<close>

lemma alloc_frame:
  "alloc v s = (a, s') \<Longrightarrow> b < next_addr s \<Longrightarrow>
     heap s' b = heap s b \<and> next_addr s \<le> next_addr s' \<and> next_addr s \<le> a \<and> heap s' a = Some v"
  by (auto simp: alloc_def)

lemma put_obj_frame:
  "b \<noteq> a \<Longrightarrow> heap (put_obj a v s) b = heap s b"
  by (simp add: put_obj_def)

lemma put_obj_next [simp]: "next_addr (put_obj a v s) = next_addr s"
  by (simp add: put_obj_def)

lemma REF_store_frame:
  assumes "b < next_addr s"
  shows "heap (snd (REF_store a_mat transformation pivots a_prec s)) b = heap s b"
  using assms
  by (auto simp: REF_store_def Let_def alloc_def put_obj_def
           split: option.splits obj.splits sum.splits prod.splits)

text \<open>The store version computes what \<open>REF\<close> computes, in fresh objects.\<close>

lemma REF_store_refines:
  assumes "heap s a_mat = Some (Matrix mat)" and "heap s a_prec = Some (Dict prec_pivots)"
  shows "case REF mat transformation pivots prec_pivots of
           Inl e \<Rightarrow> fst (REF_store a_mat transformation pivots a_prec s) = Inl e
         | Inr (R, T, p) \<Rightarrow>
             (\<exists>a_R a_T a_p. fst (REF_store a_mat transformation pivots a_prec s) = Inr (a_R, a_T, a_p) \<and>
                next_addr s \<le> a_R \<and>
                heap (snd (REF_store a_mat transformation pivots a_prec s)) a_R = Some (Matrix R) \<and>
                map_option (heap (snd (REF_store a_mat transformation pivots a_prec s))) a_T
                   = map_option (\<lambda>T. Some (Matrix T)) T \<and>
                map_option (heap (snd (REF_store a_mat transformation pivots a_prec s))) a_p
                   = map_option (\<lambda>p. Some (Dict p)) p)"
  using assms
  by (auto simp: REF_store_def REF_def REF_elim_def Let_def alloc_def put_obj_def
           split: option.splits obj.splits sum.splits prod.splits)

text \<open>
  Claim C10.  After a call of \<open>REF\<close>, whatever its outcome, the objects that existed
  before the call are unchanged: in particular the input matrix and the caller's pivot
  dictionary.
\<close>

theorem REF_leaves_arguments:
  assumes "a_mat < next_addr s" and "a_prec < next_addr s"
  shows "heap (snd (REF_store a_mat transformation pivots a_prec s)) a_mat = heap s a_mat \<and>
         heap (snd (REF_store a_mat transformation pivots a_prec s)) a_prec = heap s a_prec"
  using assms by (simp add: REF_store_frame)

theorem REF_leaves_arguments_witness:
  "heap (snd (REF_store 0 True True 1 store0)) 0 = Some (Matrix ex2) \<and>
   heap (snd (REF_store 0 True True 1 store0)) 1 = Some (Dict [])"
  using REF_leaves_arguments[of 0 store0 1 True True] by (simp add: store0_def)

section \<open>Resuming from earlier pivots\<close>

lemma rdot_unit_row:
  assumes "i < m"
  shows "rdot (unit_row m i) v = v ! i"
proof -
  have "rdot (unit_row m i) v = (\<Sum>k<m. (if i = k then 1 else 0) * v ! k)"
    by (simp add: rdot_sum[of _ m] unit_row_def)
  also have "\<dots> = (\<Sum>k<m. if k = i then v ! k else 0)"
    by (intro sum.cong) auto
  also have "\<dots> = v ! i" using assms by simp
  finally show ?thesis .
qed

lemma replay_pivot_rows:
  assumes "length T = m" and "snd jp < r" and "l < m"
  shows "replay_pivot mat m r jp T ! l =
     (if r \<le> l then
        map (\<lambda>k. bsub (T ! l ! k) (bmul (mat_vec T (column mat (fst jp)) ! l) (T ! snd jp ! k))) [0..<m]
      else T ! l)"
proof -
  have "fold (\<lambda>i T. row_elim m (mat_vec T0 (column mat (fst jp)) ! i) (snd jp) i T) [r..<m] T ! l =
        (if l \<in> set [r..<m]
         then map (\<lambda>k. bsub (T ! l ! k) (bmul (mat_vec T0 (column mat (fst jp)) ! l) (T ! snd jp ! k))) [0..<m]
         else T ! l)" for T0
    using assms by (intro fold_row_elim_nth) auto
  then show ?thesis using assms by (simp add: replay_pivot_def Let_def)
qed

lemma pivots_wf_split:
  assumes "pivots_wf m n (ps1 @ jp # ps2)"
  shows "snd jp = length ps1" and "\<forall>jp' \<in> set ps1. snd jp' < length ps1"
    and "fst jp < n" and "length ps1 < m"
proof -
  let ?p = "ps1 @ jp # ps2"
  define N where "N = length ?p"
  have ms: "map snd ?p = [0..<N]" using assms by (simp add: pivots_wf_def N_def)
  have upt: "[0..<N] ! k = k" if "k < N" for k using that by simp
  have lN: "length ps1 < N" by (simp add: N_def)
  have "snd jp = map snd ?p ! length ps1" by (simp add: nth_append)
  also have "\<dots> = [0..<N] ! length ps1" by (simp only: ms)
  also have "\<dots> = length ps1" using lN by (rule upt)
  finally show "snd jp = length ps1" .
  show "\<forall>jp' \<in> set ps1. snd jp' < length ps1"
  proof
    fix jp' assume "jp' \<in> set ps1"
    then obtain k where k: "k < length ps1" "ps1 ! k = jp'" by (auto simp: in_set_conv_nth)
    then have "snd jp' = map snd ?p ! k" by (simp add: nth_append)
    also have "\<dots> = [0..<N] ! k" by (simp only: ms)
    also have "\<dots> = k" using k lN by (intro upt) simp
    finally show "snd jp' < length ps1" using k by simp
  qed
  show "fst jp < n" using assms by (simp add: pivots_wf_def)
  show "length ps1 < m" using assms by (simp add: pivots_wf_def)
qed

lemma replay_inv:
  assumes mat: "is_mat m n mat" and A: "mcontains A mat"
    and wf: "pivots_wf m n pp" and pre: "rows_exact A pp" and pp: "pp = ps1 @ ps"
    and T: "is_mat m m T" and TrT: "mcontains Tr T"
    and unit: "\<forall>i<length pp. Tr ! i = unit_row m i"
    and cleared: "\<forall>jp \<in> set ps1. \<forall>i. length pp \<le> i \<and> i < m \<longrightarrow> rdot (Tr ! i) (column A (fst jp)) = 0"
  shows "\<exists>T0 Tr0. replay mat m (ncols mat) (length pp) ps T = Inr T0 \<and> is_mat m m T0 \<and>
           mcontains Tr0 T0 \<and> (\<forall>i<length pp. Tr0 ! i = unit_row m i) \<and>
           (\<forall>jp \<in> set pp. \<forall>i. length pp \<le> i \<and> i < m \<longrightarrow> rdot (Tr0 ! i) (column A (fst jp)) = 0)"
  using pp T TrT unit cleared
proof (induction ps arbitrary: ps1 T Tr)
  case Nil
  then show ?case by auto
next
  case (Cons jp ps)
  define r0 where "r0 = length pp"
  define j where "j = fst jp"
  define pj where "pj = snd jp"
  have wf': "pivots_wf m n (ps1 @ jp # ps)" using wf Cons.prems(1) by simp
  from pivots_wf_split[OF wf'] have pj: "pj = length ps1" and earlier: "\<forall>jp' \<in> set ps1. snd jp' < pj"
    and jn: "j < n" and "length ps1 < m" by (simp_all add: pj_def j_def)
  have pjr: "pj < r0" using pj Cons.prems(1) by (simp add: r0_def)
  have r0m: "r0 \<le> m" using wf by (simp add: pivots_wf_def r0_def)
  have m0: "0 < m" using pjr r0m by simp
  have nc: "ncols mat = n" using mat m0 by (rule ncols_is_mat)
  have An: "is_mat m n A" using A mat by (rule mcontains_is_mat)
  have lT: "length T = m" using Cons.prems(2) by (rule is_mat_length)
  have Trm: "is_mat m m Tr" using Cons.prems(3,2) by (rule mcontains_is_mat)
  define col where "col = mat_vec T (column mat j)"
  define c where "c = (\<lambda>l. rdot (Tr ! l) (column A j))"
  define T' where "T' = replay_pivot mat m r0 jp T"
  define Tr' where "Tr' = map (\<lambda>l. if r0 \<le> l then map (\<lambda>k. Tr ! l ! k - c l * Tr ! pj ! k) [0..<m]
                                  else Tr ! l) [0..<m]"
  have rows: "T' ! l = (if r0 \<le> l then map (\<lambda>k. bsub (T ! l ! k) (bmul (col ! l) (T ! pj ! k))) [0..<m]
                        else T ! l)" if "l < m" for l
    using replay_pivot_rows[OF lT _ that, of jp r0 mat] pjr
    by (simp add: T'_def col_def j_def pj_def)
  have lT': "length T' = m" by (simp add: T'_def lT)
  have T'm: "is_mat m m T'"
  proof (rule is_matI)
    show "length T' = m" by (rule lT')
    fix l assume "l < m"
    then show "length (T' ! l) = m" using Cons.prems(2) by (simp add: rows is_mat_row)
  qed
  have cc: "contains (c l) (col ! l)" if "l < m" for l
  proof -
    have "vcontains (Tr ! l) (T ! l)" using Cons.prems(3) that lT by (simp add: mcontains_nth)
    moreover have "vcontains (column A j) (column mat j)" using A mat jn by (rule vcontains_column)
    moreover have "length (T ! l) = length (column mat j)"
      using Cons.prems(2) mat that by (simp add: is_mat_row is_mat_length)
    ultimately have "contains (rdot (Tr ! l) (column A j)) (bdot (T ! l) (column mat j))"
      by (rule contains_bdot)
    then show ?thesis using that lT by (simp add: c_def col_def mat_vec_nth)
  qed
  have ent: "contains (Tr ! l ! k) (T ! l ! k)" if "l < m" "k < m" for l k
  proof -
    have "vcontains (Tr ! l) (T ! l)" using Cons.prems(3) that lT by (simp add: mcontains_nth)
    then show ?thesis using that Cons.prems(2) by (simp add: vcontains_nth is_mat_row)
  qed
  have pjm: "pj < m" using pjr r0m by simp
  have cont: "mcontains Tr' T'"
  proof (rule mcontainsI)
    show "length Tr' = length T'" by (simp add: Tr'_def lT')
    fix l assume "l < length T'"
    then have l: "l < m" by (simp add: lT')
    show "vcontains (Tr' ! l) (T' ! l)"
    proof (cases "r0 \<le> l")
      case False
      then show ?thesis using l Cons.prems(3) lT by (simp add: Tr'_def rows mcontains_nth)
    next
      case True
      have "vcontains (map (\<lambda>k. Tr ! l ! k - c l * Tr ! pj ! k) [0..<m])
                      (map (\<lambda>k. bsub (T ! l ! k) (bmul (col ! l) (T ! pj ! k))) [0..<m])"
        by (rule vcontainsI) (auto intro!: contains_bsub contains_bmul ent cc l pjm)
      then show ?thesis using True l by (simp add: Tr'_def rows)
    qed
  qed
  have unit': "\<forall>i<length pp. Tr' ! i = unit_row m i"
    using Cons.prems(4) r0m by (simp add: Tr'_def r0_def)
  have Epj: "rdot (Tr ! pj) (column A j') = A ! pj ! j'" for j'
  proof -
    have "Tr ! pj = unit_row m pj" using Cons.prems(4) pjr by (simp add: r0_def)
    then show ?thesis using pjm An by (simp add: rdot_unit_row column_nth is_mat_length)
  qed
  have E': "rdot (Tr' ! l) (column A j') = rdot (Tr ! l) (column A j') - c l * A ! pj ! j'"
    if "r0 \<le> l" "l < m" for l j'
  proof -
    have "Tr' ! l = map (\<lambda>k. Tr ! l ! k - c l * Tr ! pj ! k) [0..<m]"
      using that by (simp add: Tr'_def)
    moreover have "length (Tr ! l) = m" "length (Tr ! pj) = m"
      using Trm that pjm by (simp_all add: is_mat_row)
    ultimately show ?thesis by (simp add: rdot_axpy Epj)
  qed
  have jpmem: "jp \<in> set pp" using Cons.prems(1) by simp
  have Apj: "A ! pj ! j = 1"
    using pre jpmem by (auto simp: rows_exact_def pj_def j_def)
  have cleared': "\<forall>jp' \<in> set (ps1 @ [jp]). \<forall>i. length pp \<le> i \<and> i < m \<longrightarrow>
                    rdot (Tr' ! i) (column A (fst jp')) = 0"
  proof (intro ballI allI impI)
    fix jp' i assume jp': "jp' \<in> set (ps1 @ [jp])" and i: "length pp \<le> i \<and> i < m"
    then have i': "r0 \<le> i" "i < m" by (simp_all add: r0_def)
    show "rdot (Tr' ! i) (column A (fst jp')) = 0"
    proof (cases "jp' \<in> set ps1")
      case True
      then have "snd jp' < pj" using earlier by simp
      moreover have "jp' \<in> set pp" using True Cons.prems(1) by simp
      ultimately have "A ! pj ! fst jp' = 0"
        using pre pjr by (auto simp: rows_exact_def r0_def)
      moreover have "rdot (Tr ! i) (column A (fst jp')) = 0"
        using Cons.prems(5) True i by simp
      ultimately show ?thesis using i' by (simp add: E')
    next
      case False
      with jp' have "jp' = jp" by simp
      then show ?thesis using i' Apj by (simp add: E' j_def c_def)
    qed
  qed
  have noerr: "\<not> ncols mat \<le> fst jp" "\<not> (length pp < m \<and> m \<le> snd jp)"
    using nc jn pjm by (simp_all add: j_def pj_def)
  have "pp = (ps1 @ [jp]) @ ps" using Cons.prems(1) by simp
  from Cons.IH[OF this T'm cont unit' cleared']
  show ?case using noerr by (simp add: T'_def r0_def)
qed

lemma ridentity_nth: "i < m \<Longrightarrow> ridentity m ! i = unit_row m i"
  by (simp add: ridentity_def)

lemma is_mat_set_entry:
  assumes "is_mat m n R"
  shows "is_mat m n (set_entry i j v R)"
proof (rule is_matI)
  show "length (set_entry i j v R) = m" using assms by (simp add: is_mat_length)
  fix l assume "l < m"
  then show "length (set_entry i j v R ! l) = n"
    using assms by (cases "l = i") (simp_all add: set_entry_def is_mat_row is_mat_length)
qed

lemma is_mat_set_pivot: "is_mat m n R \<Longrightarrow> is_mat m n (set_pivot m' jp R)"
proof -
  have "is_mat m n (fold (\<lambda>i R. set_entry i j bzero R) ls R0)" if "is_mat m n R0" for j ls R0
    using that by (induction ls arbitrary: R0) (auto simp: is_mat_set_entry)
  then show "is_mat m n R \<Longrightarrow> is_mat m n (set_pivot m' jp R)"
    by (simp add: set_pivot_def is_mat_set_entry)
qed

lemma is_mat_set_pivot_fold: "is_mat m n R \<Longrightarrow> is_mat m n (fold (set_pivot m') p R)"
  by (induction p arbitrary: R) (auto simp: is_mat_set_pivot)

lemma is_mat_mat_mul: "length T = k \<Longrightarrow> is_mat k (ncols B) (mat_mul T B)"
  by (auto simp: is_mat_def mat_mul_def)

lemma REF_resume_sound:
  assumes mat: "is_mat m n mat" and A: "mcontains A mat"
    and wf: "pivots_wf m n pp" and pre: "rows_exact A pp"
  shows "\<exists>T p Tr. REF_elim mat pp = Inr (T, p) \<and> is_mat m m T \<and> pivots_wf m n p \<and>
           length pp \<le> length p \<and> mcontains Tr T \<and> (\<forall>i<length pp. Tr ! i = unit_row m i) \<and>
           pivots_exact m Tr A p \<and>
           mcontains (rmat_mul Tr A) (fold (set_pivot m) p (mat_mul T mat))"
proof -
  have r0m: "length pp \<le> m" using wf by (simp add: pivots_wf_def)
  have unit0: "\<forall>i<length pp. ridentity m ! i = unit_row m i"
    using r0m by (simp add: ridentity_nth)
  from replay_inv[OF mat A wf pre _ is_mat_identity mcontains_identity unit0, of "[]" pp]
  obtain T0 Tr0 where rep: "replay mat m (ncols mat) (length pp) pp (identity_matrix m) = Inr T0"
    and T0: "is_mat m m T0" and c0: "mcontains Tr0 T0"
    and u0: "\<forall>i<length pp. Tr0 ! i = unit_row m i"
    and cl: "\<forall>jp \<in> set pp. \<forall>i. length pp \<le> i \<and> i < m \<longrightarrow> rdot (Tr0 ! i) (column A (fst jp)) = 0"
    by auto
  have An: "is_mat m n A" using A mat by (rule mcontains_is_mat)
  have ex0: "pivots_exact m Tr0 A pp"
    unfolding pivots_exact_def
  proof (intro ballI conjI allI impI)
    fix jp assume jp: "jp \<in> set pp"
    from pivots_wf_snd_less[OF wf jp] have s: "snd jp < length pp" .
    then have sm: "snd jp < m" using r0m by simp
    have "rdot (Tr0 ! snd jp) (column A (fst jp)) = A ! snd jp ! fst jp"
      using u0 s sm An by (simp add: rdot_unit_row column_nth is_mat_length)
    then show "rdot (Tr0 ! snd jp) (column A (fst jp)) = 1"
      using pre jp by (simp add: rows_exact_def)
    fix i assume i: "snd jp < i \<and> i < m"
    show "rdot (Tr0 ! i) (column A (fst jp)) = 0"
    proof (cases "i < length pp")
      case True
      then have "rdot (Tr0 ! i) (column A (fst jp)) = A ! i ! fst jp"
        using u0 i An by (simp add: rdot_unit_row column_nth is_mat_length)
      then show ?thesis using pre jp i True by (simp add: rows_exact_def)
    next
      case False
      then show ?thesis using cl jp i by simp
    qed
  qed
  have inv0: "elim_inv m n A (length pp) T0 pp"
    unfolding elim_inv_def using T0 wf c0 u0 ex0 by auto
  have m: "nrows mat = m" using mat by (rule nrows_is_mat)
  obtain T p where el: "REF_elim mat pp = Inr (T, p)"
    using rep m by (cases "fold (pivot_step mat m) [0..<ncols mat] (T0, pp)")
                   (simp add: REF_elim_def Let_def)
  have inv: "elim_inv m n A (length pp) T p"
    using mat A rep inv0 el by (rule REF_elim_inv)
  from elim_inv_result[OF mat A inv] inv el show ?thesis
    by (auto simp: elim_inv_def)
qed

lemma REF_of_elim:
  assumes "REF_elim mat pp = Inr (T, p)" and "\<forall>jp \<in> set p. snd jp < nrows mat"
  shows "REF mat tr True pp =
     (if tr \<and> contains_zero (bdet T) then Inl PrecisionError
      else Inr (fold (set_pivot (nrows mat)) p (mat_mul T mat), if tr then Some T else None, Some p))"
  using assms by (auto simp: REF_def Let_def not_le)

lemma pivots_exact_entries:
  assumes An: "is_mat m n A" and lTr: "length Tr = m" and wf: "pivots_wf m n p"
    and ex: "pivots_exact m Tr A p"
  shows "rows_exact (take (length p) (rmat_mul Tr A)) p"
  unfolding rows_exact_def
proof (intro ballI conjI allI impI)
  fix jp assume jp: "jp \<in> set p"
  from pivots_wf_snd_less[OF wf jp] have s: "snd jp < length p" .
  have pm: "length p \<le> m" using wf by (simp add: pivots_wf_def)
  then have "0 < m" using s by simp
  then have nc: "ncols A = n" using An by (simp add: ncols_is_mat)
  have f: "fst jp < ncols A" using wf jp nc by (simp add: pivots_wf_def)
  show "take (length p) (rmat_mul Tr A) ! snd jp ! fst jp = 1"
    using ex jp s f lTr pm by (auto simp: pivots_exact_def rmat_mul_nth)
  fix i assume "snd jp < i \<and> i < length p"
  then show "take (length p) (rmat_mul Tr A) ! i ! fst jp = 0"
    using ex jp f lTr pm by (auto simp: pivots_exact_def rmat_mul_nth)
qed

section \<open>Linear combinations of matrices\<close>

lemma mcontains_entry:
  "mcontains A M \<Longrightarrow> i < length M \<Longrightarrow> k < length (M ! i) \<Longrightarrow> contains (A ! i ! k) (M ! i ! k)"
  by (simp add: mcontains_nth vcontains_nth)

lemma mcontains_row_length:
  "mcontains A M \<Longrightarrow> i < length M \<Longrightarrow> length (A ! i) = length (M ! i)"
  by (simp add: mcontains_nth vcontains_length)

lemma mcontains_smul:
  assumes "contains c C" and "mcontains A M"
  shows "mcontains (rsmul c A) (smul C M)"
proof (rule mcontainsI)
  show "length (rsmul c A) = length (smul C M)"
    using assms(2) by (simp add: rsmul_def smul_def mcontains_length)
  fix i assume "i < length (smul C M)"
  then have i: "i < length M" by (simp add: smul_def)
  then have iA: "i < length A" using assms(2) by (simp add: mcontains_length)
  have "vcontains (map ((*) c) (A ! i)) (map (bmul C) (M ! i))"
    by (rule vcontainsI)
       (auto simp: mcontains_row_length[OF assms(2) i] intro!: contains_bmul assms(1) mcontains_entry[OF assms(2) i])
  then show "vcontains (rsmul c A ! i) (smul C M ! i)"
    using i iA by (simp add: rsmul_def smul_def)
qed

lemma mcontains_madd:
  assumes "mcontains A M" and "mcontains B N" and "is_mat a b M" and "is_mat a b N"
  shows "mcontains (rmadd A B) (madd M N)"
proof (rule mcontainsI)
  show "length (rmadd A B) = length (madd M N)"
    using assms(1) by (simp add: rmadd_def madd_def mcontains_length)
  fix i assume "i < length (madd M N)"
  then have i: "i < length M" by (simp add: madd_def)
  then have ia: "i < a" using assms(3) by (simp add: is_mat_length)
  then have iN: "i < length N" using assms(4) by (simp add: is_mat_length)
  have iA: "i < length A" using i assms(1) by (simp add: mcontains_length)
  have lM: "length (M ! i) = b" "length (N ! i) = b" using assms(3,4) ia by (simp_all add: is_mat_row)
  have lA: "length (A ! i) = b" using mcontains_row_length[OF assms(1) i] lM by simp
  have "vcontains (map (\<lambda>k. A ! i ! k + B ! i ! k) [0..<b]) (map (\<lambda>k. badd (M ! i ! k) (N ! i ! k)) [0..<b])"
    by (rule vcontainsI)
       (auto simp: lM intro!: contains_badd mcontains_entry[OF assms(1) i] mcontains_entry[OF assms(2) iN])
  then show "vcontains (rmadd A B ! i) (madd M N ! i)"
    using i iA lM lA by (simp add: rmadd_def madd_def)
qed

lemma is_mat_madd: "is_mat a b M \<Longrightarrow> is_mat a b (madd M N)"
  by (rule is_matI) (simp_all add: madd_def is_mat_length is_mat_row)

lemma is_mat_rmadd: "is_mat a b M \<Longrightarrow> is_mat a b (rmadd M N)"
  by (rule is_matI) (simp_all add: rmadd_def is_mat_length is_mat_row)

lemma is_mat_zero_matrix: "is_mat n n (zero_matrix n)"
  by (simp add: is_mat_def zero_matrix_def)

lemma is_mat_rzero: "is_mat n n (rzero n)"
  by (simp add: is_mat_def rzero_def)

lemma mcontains_zero: "mcontains (rzero n) (zero_matrix n)"
  by (rule mcontainsI) (auto simp: rzero_def zero_matrix_def intro!: vcontainsI)

lemma is_mat_foldl_madd: "is_mat n n acc \<Longrightarrow> is_mat n n (foldl madd acc Ms)"
  by (induction Ms arbitrary: acc) (auto simp: is_mat_madd)

lemma is_mat_msum: "is_mat n n (msum n Ms)"
  by (simp add: msum_def is_mat_foldl_madd is_mat_zero_matrix)

lemma is_mat_foldl_rmadd: "is_mat n n acc \<Longrightarrow> is_mat n n (foldl rmadd acc Ms)"
  by (induction Ms arbitrary: acc) (auto simp: is_mat_rmadd)

lemma is_mat_rmsum: "is_mat n n (rmsum n Ms)"
  by (simp add: rmsum_def is_mat_foldl_rmadd is_mat_rzero)

lemma mcontains_foldl_madd:
  assumes "list_all2 mcontains Xs Ms" and "\<forall>M \<in> set Ms. is_mat n n M"
    and "mcontains accr acc" and "is_mat n n acc"
  shows "mcontains (foldl rmadd accr Xs) (foldl madd acc Ms)"
  using assms
proof (induction Xs Ms arbitrary: accr acc rule: list_all2_induct)
  case Nil
  then show ?case by simp
next
  case (Cons X Xs M Ms)
  have "mcontains (rmadd accr X) (madd acc M)"
    using Cons.prems Cons.hyps by (intro mcontains_madd[where a = n and b = n]) auto
  moreover have "is_mat n n (madd acc M)" using Cons.prems by (simp add: is_mat_madd)
  ultimately show ?case using Cons by simp
qed

lemma mcontains_msum:
  assumes "list_all2 mcontains Xs Ms" and "\<forall>M \<in> set Ms. is_mat n n M"
  shows "mcontains (rmsum n Xs) (msum n Ms)"
  unfolding rmsum_def msum_def
  using assms mcontains_zero is_mat_zero_matrix by (rule mcontains_foldl_madd)

lemma generated_foldl_rmadd:
  "acc \<in> generated Ms n \<Longrightarrow> \<forall>X \<in> set Xs. X \<in> generated Ms n \<Longrightarrow>
     foldl rmadd acc Xs \<in> generated Ms n"
  by (induction Xs arbitrary: acc) (auto intro: gen_add)

lemma generated_rmsum:
  "\<forall>X \<in> set Xs. X \<in> generated Ms n \<Longrightarrow> rmsum n Xs \<in> generated Ms n"
  unfolding rmsum_def by (rule generated_foldl_rmadd) (auto intro: gen_zero)

lemma rdot_add:
  "length x = n \<Longrightarrow> length y = n \<Longrightarrow>
     rdot (map (\<lambda>k. x ! k + y ! k) [0..<n]) v = rdot x v + rdot y v"
proof -
  assume x: "length x = n" and y: "length y = n"
  have "rdot (map (\<lambda>k. x ! k + y ! k) [0..<n]) v
        = sum_list (map (\<lambda>k. x ! k * v ! k + y ! k * v ! k) [0..<n])"
    by (simp add: rdot_map algebra_simps)
  also have "\<dots> = sum_list (map (\<lambda>k. x ! k * v ! k) [0..<n]) + sum_list (map (\<lambda>k. y ! k * v ! k) [0..<n])"
    by (rule sum_list_addf)
  finally show ?thesis using x y by (simp add: rdot_len)
qed

lemma rdot_smul: "rdot (map ((*) c) x) v = c * rdot x v"
proof -
  have "map (\<lambda>k. map ((*) c) x ! k * v ! k) [0..<length x] = map (\<lambda>k. c * (x ! k * v ! k)) [0..<length x]"
    by simp
  then have "rdot (map ((*) c) x) v = sum_list (map (\<lambda>k. c * (x ! k * v ! k)) [0..<length x])"
    by (simp only: rdot_def length_map)
  also have "\<dots> = c * sum_list (map (\<lambda>k. x ! k * v ! k) [0..<length x])"
    by (rule sum_list_const_mult)
  finally show ?thesis by (simp add: rdot_def)
qed

lemma rdot_zero: "rdot (replicate n 0) v = 0"
proof -
  have "map (\<lambda>k. replicate n 0 ! k * v ! k) [0..<n] = map (\<lambda>k. 0) [0..<n]"
    by simp
  then have "rdot (replicate n 0) v = sum_list (map (\<lambda>k. 0::real) [0..<n])"
    by (simp only: rdot_def length_replicate)
  then show ?thesis by simp
qed

lemma rdot_foldl_rmadd:
  assumes "is_mat n n acc" and "\<forall>X \<in> set Xs. is_mat n n X" and "a < n"
  shows "rdot (foldl rmadd acc Xs ! a) v = rdot (acc ! a) v + sum_list (map (\<lambda>X. rdot (X ! a) v) Xs)"
  using assms
proof (induction Xs arbitrary: acc)
  case Nil
  then show ?case by simp
next
  case (Cons X Xs)
  have acc': "is_mat n n (rmadd acc X)" using Cons.prems by (simp add: is_mat_rmadd)
  have "rmadd acc X ! a = map (\<lambda>k. acc ! a ! k + X ! a ! k) [0..<n]"
    using Cons.prems by (simp add: rmadd_def is_mat_length is_mat_row)
  moreover have "is_mat n n X" using Cons.prems by simp
  then have "length (acc ! a) = n" "length (X ! a) = n"
    using Cons.prems(1,3) by (simp_all add: is_mat_row)
  ultimately have "rdot (rmadd acc X ! a) v = rdot (acc ! a) v + rdot (X ! a) v"
    by (simp add: rdot_add)
  then show ?case using Cons.IH[OF acc'] Cons.prems by simp
qed

lemma rdot_rmsum:
  assumes "\<forall>X \<in> set Xs. is_mat n n X" and "a < n"
  shows "rdot (rmsum n Xs ! a) v = sum_list (map (\<lambda>X. rdot (X ! a) v) Xs)"
  using rdot_foldl_rmadd[OF is_mat_rzero assms, of v] assms(2)
  by (simp add: rmsum_def rzero_def rdot_zero)

lemma rmat_vec_nth: "a < length X \<Longrightarrow> rmat_vec X v ! a = rdot (X ! a) v"
  by (simp add: rmat_vec_def)

lemma length_rmat_vec [simp]: "length (rmat_vec X v) = length X"
  by (simp add: rmat_vec_def)

lemma is_mat_rsmul: "is_mat a b X \<Longrightarrow> is_mat a b (rsmul c X)"
  by (simp add: is_mat_def rsmul_def)

lemma is_mat_smul: "is_mat a b X \<Longrightarrow> is_mat a b (smul c X)"
  by (simp add: is_mat_def smul_def)

lemma rmat_vec_assoc:
  assumes M: "is_mat n n M" and T: "is_mat n n T"
  shows "rmat_vec (rmat_mul M T) v = rmat_vec M (rmat_vec T v)"
proof (cases "n = 0")
  case True
  then show ?thesis using M by (simp add: is_mat_def rmat_vec_def rmat_mul_def)
next
  case False
  then have nc: "ncols T = n" using T by (simp add: ncols_is_mat)
  have lM: "length M = n" and lT: "length T = n" using M T by (simp_all add: is_mat_length)
  show ?thesis
  proof (rule nth_equalityI)
    show "length (rmat_vec (rmat_mul M T) v) = length (rmat_vec M (rmat_vec T v))"
      by (simp add: rmat_mul_def)
    fix a assume "a < length (rmat_vec (rmat_mul M T) v)"
    then have a: "a < n" by (simp add: rmat_mul_def lM)
    have row: "rmat_mul M T ! a = map (\<lambda>j. rdot (M ! a) (column T j)) [0..<n]"
      using a lM nc by (simp add: rmat_mul_def)
    have lMa: "length (M ! a) = n" using M a by (rule is_mat_row)
    have "rdot (rmat_mul M T ! a) v = (\<Sum>k<n. (\<Sum>l<n. M ! a ! l * T ! l ! k) * v ! k)"
      using lMa lT by (simp add: row rdot_map sum_list_upt_sum rdot_sum[of _ n] column_nth)
    also have "\<dots> = (\<Sum>k<n. \<Sum>l<n. M ! a ! l * (T ! l ! k * v ! k))"
      by (simp add: sum_distrib_right mult.assoc)
    also have "\<dots> = (\<Sum>l<n. \<Sum>k<n. M ! a ! l * (T ! l ! k * v ! k))"
      by (rule sum.swap)
    also have "\<dots> = (\<Sum>l<n. M ! a ! l * (\<Sum>k<n. T ! l ! k * v ! k))"
      by (simp add: sum_distrib_left)
    also have "\<dots> = (\<Sum>l<n. M ! a ! l * rmat_vec T v ! l)"
      using T lT by (intro sum.cong refl) (simp add: rmat_vec_nth rdot_sum[of _ n] is_mat_row)
    also have "\<dots> = rdot (M ! a) (rmat_vec T v)"
      using lMa by (simp add: rdot_sum[of _ n])
    finally show "rmat_vec (rmat_mul M T) v ! a = rmat_vec M (rmat_vec T v) ! a"
      using a lM by (simp add: rmat_vec_nth rmat_mul_def)
  qed
qed

section \<open>The orbit of a vector\<close>

lemma list_all2_concat_map:
  "list_all2 (\<lambda>x y. list_all2 P (f x) (g y)) xs ys \<Longrightarrow>
     list_all2 P (concat (map f xs)) (concat (map g ys))"
  by (induction xs ys rule: list_all2_induct) (auto intro: list_all2_appendI)

lemma vcontains_mat_vec:
  assumes "mcontains M mat" and "is_mat k n mat" and "vcontains x y" and "length y = n"
  shows "vcontains (rmat_vec M x) (mat_vec mat y)"
proof (rule vcontainsI)
  show "length (rmat_vec M x) = length (mat_vec mat y)"
    using assms(1) by (simp add: mcontains_length)
  fix a assume "a < length (mat_vec mat y)"
  then have a: "a < length mat" by simp
  then have ak: "a < k" using assms(2) by (simp add: is_mat_length)
  have aM: "a < length M" using a assms(1) by (simp add: mcontains_length)
  have "vcontains (M ! a) (mat ! a)" using assms(1) a by (rule mcontains_nth)
  moreover have "length (mat ! a) = length y" using assms(2,4) ak by (simp add: is_mat_row)
  ultimately have "contains (rdot (M ! a) x) (bdot (mat ! a) y)"
    using assms(3) by (intro contains_bdot)
  then show "contains (rmat_vec M x ! a) (mat_vec mat y ! a)"
    using a aM by (simp add: rmat_vec_nth mat_vec_nth)
qed

lemma is_mat_mat_mul_square:
  assumes "is_mat n n A" and "is_mat n n B"
  shows "is_mat n n (mat_mul A B)"
proof (cases "n = 0")
  case True
  then show ?thesis using assms by (simp add: is_mat_def mat_mul_def)
next
  case False
  then have "ncols B = n" using assms(2) by (simp add: ncols_is_mat)
  then show ?thesis using is_mat_mat_mul[of A n B] assms(1) by (simp add: is_mat_length)
qed

lemma pivots_wf_rows: "pivots_wf m n p \<Longrightarrow> length p \<le> m' \<Longrightarrow> pivots_wf m' n p"
  by (simp add: pivots_wf_def)

lemma rows_exact_prefix:
  assumes re: "rows_exact bs p" and l: "length bs = length p" and wf: "pivots_wf m n p"
  shows "rows_exact (bs @ xs) p"
  unfolding rows_exact_def
proof (intro ballI conjI allI impI)
  fix jp assume jp: "jp \<in> set p"
  from pivots_wf_snd_less[OF wf jp] have s: "snd jp < length bs" using l by simp
  from re jp have one: "bs ! snd jp ! fst jp = 1"
    and zero: "\<forall>i. snd jp < i \<and> i < length p \<longrightarrow> bs ! i ! fst jp = 0"
    by (auto simp: rows_exact_def)
  show "(bs @ xs) ! snd jp ! fst jp = 1" using one s by (simp add: nth_append)
  fix i assume i: "snd jp < i \<and> i < length p"
  then show "(bs @ xs) ! i ! fst jp = 0" using zero l by (simp add: nth_append)
qed

lemma unit_row_product:
  assumes An: "is_mat m n A" and lTr: "length Tr = m" and i: "i < m" and u: "Tr ! i = unit_row m i"
  shows "rmat_mul Tr A ! i = A ! i"
proof -
  have "0 < m" using i by simp
  then have nc: "ncols A = n" using An by (simp add: ncols_is_mat)
  have lA: "length (A ! i) = n" using An i by (rule is_mat_row)
  have "rmat_mul Tr A ! i = map (\<lambda>j. rdot (unit_row m i) (column A j)) [0..<n]"
    using i lTr nc u by (simp add: rmat_mul_def)
  also have "\<dots> = map (\<lambda>j. A ! i ! j) [0..<n]"
    using i An by (simp add: rdot_unit_row column_nth is_mat_length)
  also have "\<dots> = A ! i" using lA map_nth[of "A ! i"] by simp
  finally show ?thesis .
qed

lemma combination_row:
  assumes An: "is_mat m n A" and Ts: "length Ts = m" and sq: "\<forall>X \<in> set Ts. is_mat n n X"
    and rel: "\<forall>j<m. A ! j = rmat_vec (Ts ! j) v"
    and lc: "length c = m" and lTr: "length Tr = m" and i: "i < m" and ci: "Tr ! i = c"
    and m: "0 < m"
  shows "rmat_mul Tr A ! i = rmat_vec (rmsum n (map (\<lambda>j. rsmul (c ! j) (Ts ! j)) [0..<m])) v"
proof -
  have nc: "ncols A = n" using An m by (simp add: ncols_is_mat)
  let ?Xs = "map (\<lambda>j. rsmul (c ! j) (Ts ! j)) [0..<m]"
  have sqX: "\<forall>X \<in> set ?Xs. is_mat n n X" using sq Ts by (auto simp: is_mat_rsmul)
  have lsum: "length (rmsum n ?Xs) = n" using is_mat_rmsum[of n ?Xs] by (simp add: is_mat_length)
  show ?thesis
  proof (rule nth_equalityI)
    show "length (rmat_mul Tr A ! i) = length (rmat_vec (rmsum n ?Xs) v)"
      using i lTr nc lsum by (simp add: rmat_mul_def)
    fix a assume "a < length (rmat_mul Tr A ! i)"
    then have a: "a < n" using i lTr nc by (simp add: rmat_mul_def)
    have "rmat_vec (rmsum n ?Xs) v ! a = rdot (rmsum n ?Xs ! a) v"
      using a lsum by (simp add: rmat_vec_nth)
    also have "\<dots> = sum_list (map (\<lambda>X. rdot (X ! a) v) ?Xs)"
      using sqX a by (rule rdot_rmsum)
    also have "\<dots> = sum_list (map (\<lambda>j. c ! j * A ! j ! a) [0..<m])"
    proof -
      have "rdot (rsmul (c ! j) (Ts ! j) ! a) v = c ! j * A ! j ! a" if "j < m" for j
      proof -
        have X: "is_mat n n (Ts ! j)" using sq Ts that by simp
        then have la: "a < length (Ts ! j)" using a by (simp add: is_mat_length)
        have "rsmul (c ! j) (Ts ! j) ! a = map ((*) (c ! j)) (Ts ! j ! a)"
          using la by (simp add: rsmul_def)
        then have "rdot (rsmul (c ! j) (Ts ! j) ! a) v = c ! j * rdot (Ts ! j ! a) v"
          by (simp add: rdot_smul)
        also have "rdot (Ts ! j ! a) v = A ! j ! a"
          using rel that la by (simp add: rmat_vec_nth)
        finally show ?thesis .
      qed
      then have eq: "map (\<lambda>X. rdot (X ! a) v) ?Xs = map (\<lambda>j. c ! j * A ! j ! a) [0..<m]"
        by simp
      show ?thesis by (simp only: eq)
    qed
    also have "\<dots> = rdot c (column A a)"
    proof -
      have "map (\<lambda>j. c ! j * column A a ! j) [0..<m] = map (\<lambda>j. c ! j * A ! j ! a) [0..<m]"
        using An by (simp add: column_nth is_mat_length)
      then show ?thesis using lc by (simp only: rdot_len[of c m])
    qed
    also have "\<dots> = rmat_mul Tr A ! i ! a"
      using i lTr nc a ci by (simp add: rmat_mul_nth)
    finally show "rmat_mul Tr A ! i ! a = rmat_vec (rmsum n ?Xs) v ! a" by simp
  qed
qed

lemma length_concat_map_const:
  "length (concat (map (\<lambda>x. map (f x) ys) xs)) = length xs * length ys"
  by (induction xs) auto

lemma orbit_step_inv:
  assumes fam: "list_all2 mcontains Ms Mats" and sq: "\<forall>M \<in> set Mats. is_mat n n M"
    and inv: "orbit_inv Ms v n b T p" and p0: "p \<noteq> []"
    and new: "\<forall>i \<in> set new. i < length p"
    and ref: "REF (b @ concat (map (\<lambda>mat. map (\<lambda>i. mat_vec mat (b ! i)) new) Mats)) True True p
              = Inr (R, Some S, Some p')"
  defines "T1 \<equiv> T @ concat (map (\<lambda>mat. map (\<lambda>i. mat_mul mat (T ! i)) new) Mats)"
  shows "orbit_inv Ms v n (take (length p') R)
           (take (length p) T1 @
            map (\<lambda>i. msum n (map (\<lambda>j. smul (S ! i ! j) (T1 ! j)) [0..<length T1]))
                [length p..<length p']) p'"
    and "length p \<le> length p'"
proof -
  define r where "r = length p"
  define b1 where "b1 = b @ concat (map (\<lambda>mat. map (\<lambda>i. mat_vec mat (b ! i)) new) Mats)"
  define m where "m = r + length Mats * length new"
  from inv obtain bs Ts where b: "is_mat r n b" and lT: "length T = r"
    and Tsq: "\<forall>X \<in> set T. is_mat n n X" and wf: "pivots_wf r n p"
    and bsb: "mcontains bs b" and TsT: "list_all2 mcontains Ts T" and re: "rows_exact bs p"
    and rel: "list_all2 (\<lambda>x t. x = rmat_vec t v \<and> t \<in> generated Ms n) bs Ts"
    by (auto simp: orbit_inv_def r_def)
  have r0: "0 < r" using p0 by (simp add: r_def)
  have lb: "length b = r" using b by (rule is_mat_length)
  have lbs: "length bs = r" using bsb lb by (simp add: mcontains_length)
  have lTs: "length Ts = r" using TsT lT by (simp add: list_all2_lengthD)
  have lMs: "length Ms = length Mats" using fam by (rule list_all2_lengthD)
  have Msq: "\<forall>M \<in> set Ms. is_mat n n M"
  proof
    fix M assume "M \<in> set Ms"
    then obtain k where k: "k < length Ms" "Ms ! k = M" by (auto simp: in_set_conv_nth)
    then have "mcontains M (Mats ! k)" using fam by (auto simp: list_all2_conv_all_nth)
    moreover have "is_mat n n (Mats ! k)" using sq k lMs by simp
    ultimately show "is_mat n n M" by (rule mcontains_is_mat)
  qed
  have Tssq: "\<forall>X \<in> set Ts. is_mat n n X"
  proof
    fix X assume "X \<in> set Ts"
    then obtain k where k: "k < length Ts" "Ts ! k = X" by (auto simp: in_set_conv_nth)
    then have "mcontains X (T ! k)" using TsT by (auto simp: list_all2_conv_all_nth)
    moreover have "is_mat n n (T ! k)" using Tsq k lTs lT by simp
    ultimately show "is_mat n n X" by (rule mcontains_is_mat)
  qed
  have bi: "vcontains (bs ! i) (b ! i)" "length (b ! i) = n" if "i < r" for i
    using that bsb lb b by (simp_all add: mcontains_nth is_mat_row)
  have Ti: "mcontains (Ts ! i) (T ! i)" "is_mat n n (T ! i)" "is_mat n n (Ts ! i)"
           "bs ! i = rmat_vec (Ts ! i) v" "Ts ! i \<in> generated Ms n" if "i < r" for i
    using that TsT Tsq Tssq lT lTs rel lbs by (simp_all add: list_all2_conv_all_nth)
  define A where "A = bs @ concat (map (\<lambda>M. map (\<lambda>i. rmat_vec M (bs ! i)) new) Ms)"
  define Ts1 where "Ts1 = Ts @ concat (map (\<lambda>M. map (\<lambda>i. rmat_mul M (Ts ! i)) new) Ms)"
  have newr: "\<forall>i \<in> set new. i < r" using new by (simp add: r_def)
  have lb1: "length b1 = m" by (simp add: b1_def m_def lb length_concat_map_const)
  have lT1: "length T1 = m" by (simp add: T1_def m_def lT length_concat_map_const)
  have b1m: "is_mat m n b1"
    unfolding is_mat_def
  proof (intro conjI ballI)
    show "length b1 = m" by (rule lb1)
    fix row assume "row \<in> set b1"
    then consider "row \<in> set b" | mat i where "mat \<in> set Mats" "i \<in> set new" "row = mat_vec mat (b ! i)"
      by (auto simp: b1_def)
    then show "length row = n"
    proof cases
      case 1
      then show ?thesis using b by (simp add: is_mat_def)
    next
      case 2
      then have "is_mat n n mat" using sq by simp
      then show ?thesis using 2 by (simp add: is_mat_length)
    qed
  qed
  have Ab1: "mcontains A b1"
    unfolding mcontains_def A_def b1_def
  proof (intro list_all2_appendI list_all2_concat_map)
    show "list_all2 vcontains bs b" using bsb by (simp add: mcontains_def)
    show "list_all2 (\<lambda>M mat. list_all2 vcontains (map (\<lambda>i. rmat_vec M (bs ! i)) new)
                                              (map (\<lambda>i. mat_vec mat (b ! i)) new)) Ms Mats"
      using fam
    proof (rule list.rel_mono_strong)
      fix M mat assume "M \<in> set Ms" and "mat \<in> set Mats" and Mm: "mcontains M mat"
      then have "is_mat n n mat" using sq by simp
      then show "list_all2 vcontains (map (\<lambda>i. rmat_vec M (bs ! i)) new) (map (\<lambda>i. mat_vec mat (b ! i)) new)"
        using Mm newr bi by (auto simp: list_all2_map1 list_all2_map2 list_all2_same intro!: vcontains_mat_vec)
    qed
  qed
  have Ts1T1: "list_all2 mcontains Ts1 T1"
    unfolding Ts1_def T1_def
  proof (intro list_all2_appendI list_all2_concat_map)
    show "list_all2 mcontains Ts T" by (rule TsT)
    show "list_all2 (\<lambda>M mat. list_all2 mcontains (map (\<lambda>i. rmat_mul M (Ts ! i)) new)
                                              (map (\<lambda>i. mat_mul mat (T ! i)) new)) Ms Mats"
      using fam
    proof (rule list.rel_mono_strong)
      fix M mat assume "M \<in> set Ms" and "mat \<in> set Mats" and Mm: "mcontains M mat"
      then have "is_mat n n mat" using sq by simp
      then show "list_all2 mcontains (map (\<lambda>i. rmat_mul M (Ts ! i)) new) (map (\<lambda>i. mat_mul mat (T ! i)) new)"
        using Mm newr Ti by (auto simp: list_all2_map1 list_all2_map2 list_all2_same intro!: mcontains_mat_mul)
    qed
  qed
  have T1sq: "\<forall>X \<in> set T1. is_mat n n X"
    using Tsq sq newr Ti(2) by (auto simp: T1_def intro!: is_mat_mat_mul_square)
  have rel1: "list_all2 (\<lambda>x t. x = rmat_vec t v \<and> t \<in> generated Ms n) A Ts1"
    unfolding A_def Ts1_def
  proof (intro list_all2_appendI list_all2_concat_map)
    show "list_all2 (\<lambda>x t. x = rmat_vec t v \<and> t \<in> generated Ms n) bs Ts" by (rule rel)
    show "list_all2 (\<lambda>M M'. list_all2 (\<lambda>x t. x = rmat_vec t v \<and> t \<in> generated Ms n)
              (map (\<lambda>i. rmat_vec M (bs ! i)) new) (map (\<lambda>i. rmat_mul M' (Ts ! i)) new)) Ms Ms"
      unfolding list_all2_same
    proof
      fix M assume M: "M \<in> set Ms"
      then have Mn: "is_mat n n M" using Msq by simp
      have "rmat_vec M (bs ! i) = rmat_vec (rmat_mul M (Ts ! i)) v \<and> rmat_mul M (Ts ! i) \<in> generated Ms n"
        if "i \<in> set new" for i
      proof -
        have i: "i < r" using that newr by simp
        have "rmat_vec (rmat_mul M (Ts ! i)) v = rmat_vec M (rmat_vec (Ts ! i) v)"
          using Mn Ti(3)[OF i] by (rule rmat_vec_assoc)
        moreover have "rmat_mul M (Ts ! i) \<in> generated Ms n"
          using gen_mat[OF M] Ti(5)[OF i] by (rule gen_mul)
        ultimately show ?thesis using Ti(4)[OF i] by simp
      qed
      then show "list_all2 (\<lambda>x t. x = rmat_vec t v \<and> t \<in> generated Ms n)
              (map (\<lambda>i. rmat_vec M (bs ! i)) new) (map (\<lambda>i. rmat_mul M (Ts ! i)) new)"
        by (simp add: list_all2_map1 list_all2_map2 list_all2_same)
    qed
  qed
  have wfm: "pivots_wf m n p" using wf by (rule pivots_wf_rows) (simp add: m_def r_def)
  have reA: "rows_exact A p" unfolding A_def using re _ wf by (rule rows_exact_prefix) (simp add: lbs r_def)
  from REF_resume_sound[OF b1m Ab1 wfm reA] obtain T0 p0' Sr where
    el: "REF_elim b1 p = Inr (T0, p0')" and T0m: "is_mat m m T0" and wf': "pivots_wf m n p0'"
    and le: "length p \<le> length p0'" and SrT0: "mcontains Sr T0"
    and unit: "\<forall>i<length p. Sr ! i = unit_row m i" and ex: "pivots_exact m Sr A p0'"
    and RR: "mcontains (rmat_mul Sr A) (fold (set_pivot m) p0' (mat_mul T0 b1))"
    by blast
  from ref[folded b1_def] el have S: "T0 = S" and P: "p0' = p'"
    and R: "R = fold (set_pivot (nrows b1)) p' (mat_mul S b1)"
    by (auto elim!: REF_Inr)
  have nr: "nrows b1 = m" using b1m by (rule nrows_is_mat)
  define r' where "r' = length p'"
  have rr': "r \<le> r'" using le P by (simp add: r_def r'_def)
  show "length p \<le> length p'" using le P by simp
  have r'm: "r' \<le> m" using wf' P by (simp add: pivots_wf_def r'_def)
  have m0: "0 < m" using r0 by (simp add: m_def)
  have An: "is_mat m n A" using Ab1 b1m by (rule mcontains_is_mat)
  have lSr: "length Sr = m" using SrT0 T0m by (simp add: mcontains_length is_mat_length)
  have Srm: "is_mat m m Sr" using SrT0 T0m by (rule mcontains_is_mat)
  have lA: "length A = m" using An by (rule is_mat_length)
  have lTs1: "length Ts1 = m" using Ts1T1 lT1 by (simp add: list_all2_lengthD)
  have Ts1sq: "\<forall>X \<in> set Ts1. is_mat n n X"
  proof
    fix X assume "X \<in> set Ts1"
    then obtain k where k: "k < length Ts1" "Ts1 ! k = X" by (auto simp: in_set_conv_nth)
    then have "mcontains X (T1 ! k)" using Ts1T1 by (auto simp: list_all2_conv_all_nth)
    moreover have "is_mat n n (T1 ! k)" using T1sq k lTs1 lT1 by simp
    ultimately show "is_mat n n X" by (rule mcontains_is_mat)
  qed
  have relj: "\<forall>j<m. A ! j = rmat_vec (Ts1 ! j) v"
    using rel1 lA by (simp add: list_all2_conv_all_nth)
  have genj: "Ts1 ! j \<in> generated Ms n" if "j < m" for j
    using rel1 lA that by (simp add: list_all2_conv_all_nth)
  have Rm: "is_mat m n R"
  proof -
    have "ncols b1 = n" using b1m m0 by (rule ncols_is_mat)
    then have "is_mat m n (mat_mul S b1)"
      using is_mat_mat_mul[of S m b1] T0m S by (simp add: is_mat_length)
    then show ?thesis unfolding R by (rule is_mat_set_pivot_fold)
  qed
  define bs2 where "bs2 = take r' (rmat_mul Sr A)"
  define Ts2 where "Ts2 = Ts @ map (\<lambda>i. rmsum n (map (\<lambda>j. rsmul (Sr ! i ! j) (Ts1 ! j)) [0..<m])) [r..<r']"
  define T2 where "T2 = take r T1 @ map (\<lambda>i. msum n (map (\<lambda>j. smul (S ! i ! j) (T1 ! j)) [0..<m])) [r..<r']"
  have takeT1: "take r T1 = T" by (simp add: T1_def lT)
  have b2m: "is_mat r' n (take r' R)"
    using Rm r'm by (auto simp: is_mat_def dest: in_set_takeD)
  have lT2: "length T2 = r'" using rr' by (simp add: T2_def takeT1 lT)
  have T2sq: "\<forall>X \<in> set T2. is_mat n n X"
    using Tsq by (auto simp: T2_def takeT1 is_mat_msum)
  have wf2: "pivots_wf r' n p'" using wf' P by (simp add: pivots_wf_def r'_def)
  have c2: "mcontains bs2 (take r' R)"
    using RR unfolding bs2_def mcontains_def R nr P S by (rule list_all2_takeI)
  have re2: "rows_exact bs2 p'"
    unfolding bs2_def r'_def using An lSr wf'[unfolded P] ex[unfolded P] by (rule pivots_exact_entries)
  have Sent: "contains (Sr ! i ! j) (S ! i ! j)" if "i < m" "j < m" for i j
    using SrT0 T0m that unfolding S by (intro mcontains_entry) (simp_all add: is_mat_length is_mat_row)
  have Ts2T2: "list_all2 mcontains Ts2 T2"
    unfolding Ts2_def T2_def takeT1
  proof (intro list_all2_appendI)
    show "list_all2 mcontains Ts T" by (rule TsT)
    show "list_all2 mcontains
            (map (\<lambda>i. rmsum n (map (\<lambda>j. rsmul (Sr ! i ! j) (Ts1 ! j)) [0..<m])) [r..<r'])
            (map (\<lambda>i. msum n (map (\<lambda>j. smul (S ! i ! j) (T1 ! j)) [0..<m])) [r..<r'])"
      unfolding list_all2_map1 list_all2_map2 list_all2_same
    proof
      fix i assume "i \<in> set [r..<r']"
      then have i: "i < m" using r'm by simp
      show "mcontains (rmsum n (map (\<lambda>j. rsmul (Sr ! i ! j) (Ts1 ! j)) [0..<m]))
                      (msum n (map (\<lambda>j. smul (S ! i ! j) (T1 ! j)) [0..<m]))"
      proof (rule mcontains_msum)
        show "list_all2 mcontains (map (\<lambda>j. rsmul (Sr ! i ! j) (Ts1 ! j)) [0..<m])
                                  (map (\<lambda>j. smul (S ! i ! j) (T1 ! j)) [0..<m])"
          using Ts1T1 lT1 i
          by (auto simp: list_all2_map1 list_all2_map2 list_all2_same list_all2_conv_all_nth
                   intro!: mcontains_smul Sent)
        show "\<forall>M \<in> set (map (\<lambda>j. smul (S ! i ! j) (T1 ! j)) [0..<m]). is_mat n n M"
          using T1sq lT1 by (auto intro!: is_mat_smul)
      qed
    qed
  qed
  have lbs2: "length bs2 = r'" using r'm by (simp add: bs2_def rmat_mul_def lSr)
  have lTs2: "length Ts2 = r'" using rr' by (simp add: Ts2_def lTs)
  have Ts2_hi: "Ts2 ! i = rmsum n (map (\<lambda>j. rsmul (Sr ! i ! j) (Ts1 ! j)) [0..<m])"
    if "\<not> i < r" "i < r'" for i
  proof -
    have "[r..<r'] ! (i - r) = r + (i - r)" using that by (intro nth_upt) simp
    then have "[r..<r'] ! (i - r) = i" using that by simp
    then show ?thesis using that by (simp add: Ts2_def nth_append lTs)
  qed
  have rel2: "list_all2 (\<lambda>x t. x = rmat_vec t v \<and> t \<in> generated Ms n) bs2 Ts2"
    unfolding list_all2_conv_all_nth
  proof (intro conjI allI impI)
    show "length bs2 = length Ts2" by (simp add: lbs2 lTs2)
    fix i assume "i < length bs2"
    then have i: "i < r'" by (simp add: lbs2)
    then have im: "i < m" using r'm by simp
    have bsi: "bs2 ! i = rmat_mul Sr A ! i" using i by (simp add: bs2_def)
    show "bs2 ! i = rmat_vec (Ts2 ! i) v" "Ts2 ! i \<in> generated Ms n"
    proof -
      show "bs2 ! i = rmat_vec (Ts2 ! i) v"
      proof (cases "i < r")
        case True
        have "rmat_mul Sr A ! i = A ! i"
          using An lSr im unit True by (intro unit_row_product) (simp_all add: r_def)
        also have "\<dots> = bs ! i" using True by (simp add: A_def nth_append lbs)
        also have "\<dots> = rmat_vec (Ts ! i) v" using True by (rule Ti(4))
        finally show ?thesis using True bsi by (simp add: Ts2_def nth_append lTs)
      next
        case False
        then have "Ts2 ! i = rmsum n (map (\<lambda>j. rsmul (Sr ! i ! j) (Ts1 ! j)) [0..<m])"
          using i by (rule Ts2_hi)
        moreover have "rmat_mul Sr A ! i = rmat_vec (rmsum n (map (\<lambda>j. rsmul (Sr ! i ! j) (Ts1 ! j)) [0..<m])) v"
          using An lTs1 Ts1sq relj _ lSr im refl m0
          by (rule combination_row) (use Srm im in \<open>simp add: is_mat_row\<close>)
        ultimately show ?thesis using bsi by simp
      qed
      show "Ts2 ! i \<in> generated Ms n"
      proof (cases "i < r")
        case True
        then show ?thesis using Ti(5) by (simp add: Ts2_def nth_append lTs)
      next
        case False
        then have "Ts2 ! i = rmsum n (map (\<lambda>j. rsmul (Sr ! i ! j) (Ts1 ! j)) [0..<m])"
          using i by (rule Ts2_hi)
        moreover have "rmsum n (map (\<lambda>j. rsmul (Sr ! i ! j) (Ts1 ! j)) [0..<m]) \<in> generated Ms n"
          by (rule generated_rmsum) (auto intro!: gen_smul genj)
        ultimately show ?thesis by simp
      qed
    qed
  qed
  have "orbit_inv Ms v n (take r' R) T2 p'"
    unfolding orbit_inv_def
    using b2m lT2 T2sq wf2 c2 Ts2T2 re2 rel2 by (auto simp: r'_def)
  then show "orbit_inv Ms v n (take (length p') R)
           (take (length p) T1 @
            map (\<lambda>i. msum n (map (\<lambda>j. smul (S ! i ! j) (T1 ! j)) [0..<length T1]))
                [length p..<length p']) p'"
    by (simp add: T2_def r_def r'_def lT1)
qed

lemma orbit_loop_sound:
  "list_all2 mcontains Ms Mats \<Longrightarrow> \<forall>M \<in> set Mats. is_mat n n M \<Longrightarrow>
         orbit_loop Mats n True b T p r new = Inr (b', T') \<Longrightarrow> orbit_inv Ms v n b T p \<Longrightarrow>
         p \<noteq> [] \<Longrightarrow> r = length p \<Longrightarrow> \<forall>i \<in> set new. i < length p \<Longrightarrow>
         \<exists>p'. orbit_inv Ms v n b' T' p'"
proof (induction Mats n True b T p r new arbitrary: b' T' rule: orbit_loop.induct)
  case (1 Mats n b T p r new)
  show ?case
  proof (cases "new \<noteq> [] \<and> r < n")
    case False
    with "1.prems"(3) have "b' = b" "T' = T" by (simp_all add: orbit_loop.simps)
    then show ?thesis using "1.prems"(4) by blast
  next
    case True
    let ?b1 = "b @ concat (map (\<lambda>mat. map (\<lambda>i. mat_vec mat (b ! i)) new) Mats)"
    let ?T1 = "if True then T @ concat (map (\<lambda>mat. map (\<lambda>i. mat_mul mat (T ! i)) new) Mats) else T"
    from True "1.prems"(3) have M: "Mats \<noteq> []"
      by (auto simp: orbit_loop.simps split: if_splits)
    from True M "1.prems"(3) obtain R S p' where
      ref: "REF ?b1 True True p = Inr (R, S, Some p')"
      by (subst (asm) orbit_loop.simps) (auto simp: Let_def split: sum.splits option.splits)
    from ref obtain S0 where S: "S = Some S0" by (auto elim!: REF_Inr)
    let ?new' = "[r..<length p']"
    let ?b2 = "take (length p') R"
    let ?T2 = "case S of None \<Rightarrow> ?T1
               | Some S \<Rightarrow> take r ?T1 @ map (\<lambda>i. msum n (map (\<lambda>j. smul (S ! i ! j) (?T1 ! j)) [0..<length ?T1])) ?new'"
    from True M ref "1.prems"(3) have rec: "orbit_loop Mats n True ?b2 ?T2 p' (length p') ?new' = Inr (b', T')"
      by (subst (asm) orbit_loop.simps) (simp add: Let_def)
    from orbit_step_inv[OF "1.prems"(1) "1.prems"(2) "1.prems"(4,5,7) ref[unfolded S]]
    have inv': "orbit_inv Ms v n ?b2 ?T2 p'" and le: "length p \<le> length p'"
      by (simp_all add: S "1.prems"(6))
    have p': "p' \<noteq> []" using le "1.prems"(5) by auto
    have new': "\<forall>i \<in> set ?new'. i < length p'" by simp
    show ?thesis
      by (rule "1.hyps"[OF True M refl refl ref refl refl refl refl refl refl "1.prems"(1,2) rec inv' p' refl new'])
  qed
qed

lemma is_mat_ridentity: "is_mat n n (ridentity n)"
  by (rule is_matI) (simp_all add: ridentity_def unit_row_def)

lemma rmat_vec_scaled_identity:
  assumes "length v = n"
  shows "rmat_vec (rsmul s (ridentity n)) v = map (\<lambda>j. s * v ! j) [0..<n]"
proof (rule nth_equalityI)
  show "length (rmat_vec (rsmul s (ridentity n)) v) = length (map (\<lambda>j. s * v ! j) [0..<n])"
    by (simp add: rsmul_def ridentity_def)
  fix a assume "a < length (rmat_vec (rsmul s (ridentity n)) v)"
  then have a: "a < n" by (simp add: rsmul_def ridentity_def)
  have "rsmul s (ridentity n) ! a = map ((*) s) (unit_row n a)"
    using a by (simp add: rsmul_def ridentity_def)
  then have "rdot (rsmul s (ridentity n) ! a) v = s * v ! a"
    using a by (simp add: rdot_smul rdot_unit_row)
  then show "rmat_vec (rsmul s (ridentity n)) v ! a = map (\<lambda>j. s * v ! j) [0..<n] ! a"
    using a by (simp add: rmat_vec_nth rsmul_def ridentity_def)
qed

lemma single_row_product:
  assumes "length v = n" and "Sr = [[s]]"
  shows "rmat_mul Sr [v] = [map (\<lambda>j. s * v ! j) [0..<n]]"
  using assms by (simp add: rmat_mul_def ncols_def column_def rdot_def)

lemma orbit_init_inv:
  assumes vv: "vcontains v vec" and n: "length vec = n"
    and ref: "REF [vec] True True [] = Inr (b, Some S, Some p)" and p0: "p \<noteq> []"
  shows "orbit_inv Ms v n b [smul (S ! 0 ! 0) (identity_matrix n)] p"
proof -
  have mat: "is_mat 1 n [vec]" using n by (simp add: is_mat_def)
  have A: "mcontains [v] [vec]" using vv by (simp add: mcontains_def)
  have wf0: "pivots_wf 1 n []" by (simp add: pivots_wf_def)
  have re0: "rows_exact [v] []" by (simp add: rows_exact_def)
  from REF_resume_sound[OF mat A wf0 re0] obtain T0 p0' Sr where
    el: "REF_elim [vec] [] = Inr (T0, p0')" and T0m: "is_mat 1 1 T0" and wf': "pivots_wf 1 n p0'"
    and SrT0: "mcontains Sr T0" and ex: "pivots_exact 1 Sr [v] p0'"
    and RR: "mcontains (rmat_mul Sr [v]) (fold (set_pivot 1) p0' (mat_mul T0 [vec]))"
    by blast
  from ref el have S: "T0 = S" and P: "p0' = p"
    and R: "b = fold (set_pivot (nrows [vec])) p (mat_mul S [vec])"
    by (auto elim!: REF_Inr)
  have lp: "length p = 1" using wf' P p0 by (cases p) (auto simp: pivots_wf_def)
  have lv: "length v = n" using vv n by (simp add: vcontains_length)
  have Srm: "is_mat 1 1 Sr" using SrT0 T0m by (rule mcontains_is_mat)
  then obtain s where Sr: "Sr = [[s]]"
    by (cases Sr; cases "hd Sr"; cases "tl (hd Sr)") (auto simp: is_mat_def)
  have "length S = 1" "length (S ! 0) = 1"
    using T0m S by (simp_all add: is_mat_length is_mat_row)
  then have "contains (Sr ! 0 ! 0) (S ! 0 ! 0)"
    using SrT0[unfolded S] by (intro mcontains_entry) simp_all
  then have s: "contains s (S ! 0 ! 0)" by (simp add: Sr)
  have nc: "ncols [vec] = n" using n by (simp add: ncols_def)
  have bm: "is_mat 1 n b"
    unfolding R using is_mat_mat_mul[of S 1 "[vec]"] T0m S nc
    by (intro is_mat_set_pivot_fold) (simp add: is_mat_length)
  define bs where "bs = rmat_mul Sr [v]"
  have bs: "bs = [map (\<lambda>j. s * v ! j) [0..<n]]" unfolding bs_def using lv Sr by (rule single_row_product)
  have c: "mcontains bs b" using RR by (simp add: bs_def R P S nrows_def)
  have An: "is_mat 1 n [v]" using lv by (simp add: is_mat_def)
  have "rows_exact (take (length p) (rmat_mul Sr [v])) p"
    using An _ wf'[unfolded P] ex[unfolded P] by (rule pivots_exact_entries) (simp add: Sr)
  then have re: "rows_exact bs p" by (simp add: lp bs bs_def[symmetric])
  have Tc: "list_all2 mcontains [rsmul s (ridentity n)] [smul (S ! 0 ! 0) (identity_matrix n)]"
    using s mcontains_identity by (simp add: mcontains_smul)
  have rel: "list_all2 (\<lambda>x t. x = rmat_vec t v \<and> t \<in> generated Ms n) bs [rsmul s (ridentity n)]"
    using lv by (simp add: bs rmat_vec_scaled_identity gen_smul gen_one)
  have sqT: "is_mat n n (smul (S ! 0 ! 0) (identity_matrix n))"
    by (intro is_mat_smul is_mat_identity)
  show ?thesis
    unfolding orbit_inv_def using bm sqT wf' P c Tc re rel by (auto simp: lp)
qed

text \<open>
  Claim C6.  When \<open>orbit\<close> returns a basis and transition operators, then for every
  family of real matrices contained in \<open>Mats\<close> and every real vector contained in the
  seed there are real vectors in the basis and real matrices in the operators, such that each
  vector is its operator applied to the seed vector, and each operator lies in the algebra
  generated by the real family.
\<close>

theorem orbit_transition_sound:
  assumes "\<forall>M \<in> set Mats. is_mat n n M" and "length vec = n"
    and "list_all2 mcontains Ms Mats" and "vcontains v vec"
    and "orbit Mats vec True = Inr (b, Some T)"
  shows "length T = length b \<and>
         (\<exists>bs Ts. mcontains bs b \<and> list_all2 mcontains Ts T \<and>
            (\<forall>i<length b. bs ! i = rmat_vec (Ts ! i) v \<and> Ts ! i \<in> generated Ms n))"
proof -
  have len: "length vec \<noteq> 0" using assms(5) by (auto simp: orbit_def split: if_splits)
  from assms(5) obtain b0 S p where ref: "REF [vec] True True [] = Inr (b0, Some S, Some p)"
    by (auto simp: orbit_def Let_def split: sum.splits option.splits if_splits)
  show ?thesis
  proof (cases "p = []")
    case True
    with assms(5) ref len have "b = []" "T = []" by (simp_all add: orbit_def)
    then show ?thesis by (simp add: mcontains_def)
  next
    case False
    let ?T0 = "[smul (S ! 0 ! 0) (identity_matrix n)]"
    from assms(5) ref False len have loop: "orbit_loop Mats n True b0 ?T0 p 1 [0..<1] = Inr (b, T)"
      by (auto simp: orbit_def Let_def assms(2) split: sum.splits)
    have inv0: "orbit_inv Ms v n b0 ?T0 p" using assms(4,2) ref False by (rule orbit_init_inv)
    have lp: "length p = 1" using inv0 False by (cases p) (auto simp: orbit_inv_def pivots_wf_def)
    have "\<exists>p'. orbit_inv Ms v n b T p'"
      using assms(3,1) loop inv0 False by (rule orbit_loop_sound) (simp_all add: lp)
    then obtain p' where inv: "orbit_inv Ms v n b T p'" by blast
    then have b: "is_mat (length p') n b" and lT: "length T = length p'"
      by (simp_all add: orbit_inv_def)
    from inv obtain bs Ts where bsb: "mcontains bs b" and TsT: "list_all2 mcontains Ts T"
      and rel: "list_all2 (\<lambda>x t. x = rmat_vec t v \<and> t \<in> generated Ms n) bs Ts"
      unfolding orbit_inv_def by blast
    have lb: "length b = length p'" using b by (rule is_mat_length)
    have "\<forall>i<length b. bs ! i = rmat_vec (Ts ! i) v \<and> Ts ! i \<in> generated Ms n"
      using rel bsb by (simp add: list_all2_conv_all_nth mcontains_length)
    then show ?thesis using lb lT bsb TsT by auto
  qed
qed

lemma upt_0_1: "[0..<Suc 0] = [0]"
  by simp

lemma seed2_dims: "nrows [seed2] = Suc 0" "ncols [seed2] = 2" "length seed2 = 2"
  by code_simp+

lemma seed2_step0:
  "pivot_step [seed2] (Suc 0) 0 (identity_matrix (Suc 0), []) = (seed2_S, seed2_p0)"
  by code_simp

lemma seed2_step1: "pivot_step [seed2] (Suc 0) (Suc 0) (seed2_S, seed2_p0) = (seed2_S, seed2_p0)"
  by code_simp

lemma seed2_elim: "REF_elim [seed2] [] = Inr (seed2_S, seed2_p0)"
  by (simp add: REF_elim_def seed2_dims upt_0_2 seed2_step0 seed2_step1)

lemma seed2_mul: "mat_mul seed2_S [seed2] = seed2_TM"
  by code_simp

lemma seed2_set: "fold (set_pivot (Suc 0)) seed2_p0 seed2_TM = seed2_b0"
  by code_simp

lemma seed2_p0_rows: "\<not> (\<exists>jp \<in> set seed2_p0. Suc 0 \<le> snd jp)"
  by code_simp

lemma seed2_det: "\<not> contains_zero (bdet seed2_S)"
  by code_simp

lemma seed2_REF: "REF [seed2] True True [] = Inr (seed2_b0, Some seed2_S, Some seed2_p0)"
  by (simp only: REF_def seed2_elim seed2_dims seed2_mul seed2_set seed2_p0_rows seed2_det Let_def
        sum.case prod.case if_False if_True)

lemma seed2_first: "smul (seed2_S ! 0 ! 0) (identity_matrix 2) = seed2_T0"
  by code_simp

text \<open>The one round of the loop: the image of the first basis vector is stacked under it,
  the resumed elimination finds the second pivot, and the new operator is the combination
  of the old ones read off the second row of the transformation.\<close>

lemma seed2_stack:
  "seed2_b0 @ concat (map (\<lambda>mat. map (\<lambda>i. mat_vec mat (seed2_b0 ! i)) [0]) fam2) = seed2_b"
  by code_simp

lemma seed2_extend:
  "[seed2_T0] @ concat (map (\<lambda>mat. map (\<lambda>i. mat_mul mat ([seed2_T0] ! i)) [0]) fam2)
     = [seed2_T0, seed2_T1]"
  by code_simp

lemma seed2_b_dims: "nrows seed2_b = 2" "ncols seed2_b = 2" "length seed2_p0 = Suc 0"
  "length seed2_p = 2"
  by code_simp+

lemma seed2_replay: "replay seed2_b 2 2 (Suc 0) seed2_p0 (identity_matrix 2) = Inr seed2_b"
  by code_simp

lemma seed2_b_step0: "pivot_step seed2_b 2 0 (seed2_b, seed2_p0) = (seed2_b, seed2_p0)"
  by code_simp

lemma seed2_b_step1: "pivot_step seed2_b 2 (Suc 0) (seed2_b, seed2_p0) = (seed2_b, seed2_p)"
  by code_simp

lemma seed2_b_elim: "REF_elim seed2_b seed2_p0 = Inr (seed2_b, seed2_p)"
  by (simp add: REF_elim_def seed2_b_dims upt_0_2 seed2_replay seed2_b_step0 seed2_b_step1)

lemma seed2_b_mul: "mat_mul seed2_b seed2_b = seed2_b"
  by code_simp

lemma seed2_b_set: "fold (set_pivot 2) seed2_p seed2_b = seed2_b"
  by code_simp

lemma seed2_p_rows: "\<not> (\<exists>jp \<in> set seed2_p. 2 \<le> snd jp)"
  by code_simp

lemma seed2_b_det: "\<not> contains_zero (bdet seed2_b)"
  by code_simp

lemma seed2_b_REF: "REF seed2_b True True seed2_p0 = Inr (seed2_b, Some seed2_b, Some seed2_p)"
  by (simp only: REF_def seed2_b_elim seed2_b_dims seed2_b_mul seed2_b_set seed2_p_rows
        seed2_b_det Let_def sum.case prod.case if_False if_True)

lemma seed2_update:
  "take (Suc 0) [seed2_T0, seed2_T1] @
     map (\<lambda>i. msum 2 (map (\<lambda>j. smul (seed2_b ! i ! j) ([seed2_T0, seed2_T1] ! j))
                         [0..<length [seed2_T0, seed2_T1]])) [Suc 0..<2]
   = [seed2_T0, seed2_T1]"
  by code_simp

lemma seed2_take: "take 2 seed2_b = seed2_b"
  by code_simp

lemma fam2_nonempty: "fam2 \<noteq> []"
  by (simp add: fam2_def)

lemma seed2_enter: "([0::nat] \<noteq> [] \<and> Suc 0 < 2) = True" "(fam2 = []) = False"
  by (simp_all add: fam2_def)

lemma seed2_leave: "([Suc 0..<2] \<noteq> [] \<and> (2::nat) < 2) = False"
  by simp

lemma seed2_loop:
  "orbit_loop fam2 2 True seed2_b0 [seed2_T0] seed2_p0 (Suc 0) [0] = Inr (seed2_b, [seed2_T0, seed2_T1])"
proof -
  have exit: "orbit_loop fam2 2 True seed2_b [seed2_T0, seed2_T1] seed2_p 2 [Suc 0..<2]
                = Inr (seed2_b, [seed2_T0, seed2_T1])"
    by (subst orbit_loop.simps) (simp only: seed2_leave if_False)
  show ?thesis
    by (subst orbit_loop.simps)
       (simp only: seed2_enter if_True if_False Let_def seed2_stack seed2_extend seed2_b_REF
          sum.case prod.case option.case seed2_b_dims seed2_take seed2_update exit)
qed

lemma seed2_orbit: "orbit fam2 seed2 True = Inr (seed2_b, Some [seed2_T0, seed2_T1])"
  by (simp add: orbit_def seed2_dims seed2_REF seed2_first seed2_p0_def[symmetric] seed2_b_dims
        seed2_loop upt_0_1)

lemma fam2_shape: "\<forall>M \<in> set fam2. is_mat 2 2 M"
  by (simp add: fam2_def nil2_def is_mat_def)

lemma fam2_contains: "list_all2 mcontains [[[0, 0], [1, 0]]] fam2"
  by (simp add: fam2_def nil2_def mcontains_def vcontains_def contains_def)

lemma seed2_contains: "vcontains [2, 0] seed2"
  by (simp add: seed2_def vcontains_def contains_def)

theorem orbit_transition_sound_witness:
  "orbit fam2 seed2 True = Inr (seed2_b, Some [seed2_T0, seed2_T1]) \<and>
   (\<exists>bs Ts. mcontains bs seed2_b \<and> list_all2 mcontains Ts [seed2_T0, seed2_T1] \<and>
      bs ! 0 = rmat_vec (Ts ! 0) [2, 0] \<and> Ts ! 0 \<in> generated [[[0, 0], [1, 0]]] 2 \<and>
      bs ! 1 = rmat_vec (Ts ! 1) [2, 0] \<and> Ts ! 1 \<in> generated [[[0, 0], [1, 0]]] 2)"
proof -
  have l: "length seed2_b = 2" by code_simp
  from orbit_transition_sound[OF fam2_shape seed2_dims(3) fam2_contains seed2_contains seed2_orbit]
  obtain bs Ts where "mcontains bs seed2_b" "list_all2 mcontains Ts [seed2_T0, seed2_T1]"
    and all: "\<forall>i<length seed2_b. bs ! i = rmat_vec (Ts ! i) [2, 0] \<and>
                 Ts ! i \<in> generated [[[0, 0], [1, 0]]] 2"
    by blast
  moreover from all l have "bs ! 0 = rmat_vec (Ts ! 0) [2, 0] \<and> Ts ! 0 \<in> generated [[[0, 0], [1, 0]]] 2"
    by simp
  moreover from all l have "bs ! 1 = rmat_vec (Ts ! 1) [2, 0] \<and> Ts ! 1 \<in> generated [[[0, 0], [1, 0]]] 2"
    by simp
  ultimately show ?thesis using seed2_orbit by blast
qed

section \<open>The generated algebra\<close>

lemma length_concat_is_mat: "is_mat a b X \<Longrightarrow> length (concat X) = a * b"
proof (induction X arbitrary: a)
  case Nil
  then show ?case by (simp add: is_mat_def)
next
  case (Cons x X)
  then obtain a' where a: "a = Suc a'" and X: "is_mat a' b X" and x: "length x = b"
    by (cases a) (auto simp: is_mat_def)
  from Cons.IH[OF X] show ?case using a x by simp
qed

lemma nth_concat_is_mat:
  "is_mat a b X \<Longrightarrow> i < a \<Longrightarrow> k < b \<Longrightarrow> concat X ! (i * b + k) = X ! i ! k"
proof (induction X arbitrary: a i)
  case Nil
  then show ?case by (simp add: is_mat_def)
next
  case (Cons x X)
  then obtain a' where a: "a = Suc a'" and X: "is_mat a' b X" and x: "length x = b"
    by (cases a) (auto simp: is_mat_def)
  show ?case
  proof (cases i)
    case 0
    then show ?thesis using Cons.prems x by (simp add: nth_append)
  next
    case (Suc i')
    then have "i' < a'" using Cons.prems a by simp
    from Cons.IH[OF X this Cons.prems(3)] show ?thesis
      using Suc x by (simp add: nth_append)
  qed
qed

lemma unflatten_concat:
  assumes "is_mat n n X"
  shows "unflatten n (concat X) = X"
proof (rule nth_equalityI)
  show "length (unflatten n (concat X)) = length X"
    using assms by (simp add: unflatten_def is_mat_length)
  fix i assume "i < length (unflatten n (concat X))"
  then have i: "i < n" by (simp add: unflatten_def)
  have "map (\<lambda>k. concat X ! (i * n + k)) [0..<n] = map (\<lambda>k. X ! i ! k) [0..<n]"
    using assms i by (simp add: nth_concat_is_mat)
  also have "\<dots> = X ! i" using is_mat_row[OF assms i] map_nth[of "X ! i"] by simp
  finally show "unflatten n (concat X) ! i = X ! i" using i by (simp add: unflatten_def)
qed

lemma is_mat_unflatten: "is_mat n n (unflatten n x)"
  by (rule is_matI) (simp_all add: unflatten_def)

lemma unflatten_nth: "a < n \<Longrightarrow> k < n \<Longrightarrow> unflatten n x ! a ! k = x ! (a * n + k)"
  by (simp add: unflatten_def)

lemma flat_index: "a < n \<Longrightarrow> k < n \<Longrightarrow> a * n + k < n * (n::nat)"
proof -
  assume a: "a < n" and k: "k < n"
  have "a * n + k < a * n + n" using k by simp
  also have "\<dots> = Suc a * n" by simp
  also have "\<dots> \<le> n * n"
  proof (rule mult_le_mono1)
    show "Suc a \<le> n" using a by simp
  qed
  finally show ?thesis .
qed

lemma mcontains_unflatten:
  assumes "vcontains x y" and "length y = n * n"
  shows "mcontains (unflatten n x) (unflatten n y)"
proof (rule mcontainsI)
  show "length (unflatten n x) = length (unflatten n y)" by (simp add: unflatten_def)
  fix i assume "i < length (unflatten n y)"
  then have i: "i < n" by (simp add: unflatten_def)
  have "vcontains (map (\<lambda>k. x ! (i * n + k)) [0..<n]) (map (\<lambda>k. y ! (i * n + k)) [0..<n])"
    by (rule vcontainsI) (auto intro!: vcontains_nth[OF assms(1)] simp: assms(2) flat_index i)
  then show "vcontains (unflatten n x ! i) (unflatten n y ! i)"
    using i by (simp add: unflatten_def)
qed

lemma vcontains_concat: "mcontains X Y \<Longrightarrow> vcontains (concat X) (concat Y)"
  unfolding mcontains_def vcontains_def
  using list_all2_concat_map[of contains "\<lambda>x. x" "\<lambda>y. y" X Y] by simp

lemma is_mat_rmat_mul_square:
  assumes "is_mat n n A" and "is_mat n n B"
  shows "is_mat n n (rmat_mul A B)"
proof (cases "n = 0")
  case True
  then show ?thesis using assms by (simp add: is_mat_def rmat_mul_def)
next
  case False
  then have "ncols B = n" using assms(2) by (simp add: ncols_is_mat)
  then show ?thesis using assms(1) by (auto simp: is_mat_def rmat_mul_def)
qed

lemma rdot_unit_row_right:
  assumes "k < n" and "length x = n"
  shows "rdot x (unit_row n k) = x ! k"
proof -
  have "rdot x (unit_row n k) = (\<Sum>i<n. x ! i * (if k = i then 1 else 0))"
    using assms(2) by (simp add: rdot_sum[of _ n] unit_row_def)
  also have "\<dots> = (\<Sum>i<n. if i = k then x ! i else 0)"
    by (intro sum.cong) auto
  also have "\<dots> = x ! k" using assms(1) by simp
  finally show ?thesis .
qed

lemma rmsum_nth:
  assumes "\<forall>X \<in> set Xs. is_mat n n X" and "a < n" and "k < n"
  shows "rmsum n Xs ! a ! k = sum_list (map (\<lambda>X. X ! a ! k) Xs)"
proof -
  have row: "length (rmsum n Xs ! a) = n" using is_mat_rmsum assms(2) by (rule is_mat_row)
  have "rmsum n Xs ! a ! k = rdot (rmsum n Xs ! a) (unit_row n k)"
    using assms(3) row by (simp add: rdot_unit_row_right)
  also have "\<dots> = sum_list (map (\<lambda>X. rdot (X ! a) (unit_row n k)) Xs)"
    using assms(1,2) by (rule rdot_rmsum)
  also have "map (\<lambda>X. rdot (X ! a) (unit_row n k)) Xs = map (\<lambda>X. X ! a ! k) Xs"
  proof (rule map_cong[OF refl])
    fix X assume "X \<in> set Xs"
    then have "is_mat n n X" using assms(1) by simp
    then have "length (X ! a) = n" using assms(2) by (rule is_mat_row)
    with assms(3) show "rdot (X ! a) (unit_row n k) = X ! a ! k" by (rule rdot_unit_row_right)
  qed
  finally show ?thesis .
qed

lemma unflatten_combination:
  assumes An: "is_mat m (n * n) A" and lc: "length c = m" and lx: "length x = n * n"
    and x: "\<forall>j<n * n. x ! j = rdot c (column A j)"
  shows "unflatten n x = rmsum n (map (\<lambda>i. rsmul (c ! i) (unflatten n (A ! i))) [0..<m])"
proof -
  let ?Xs = "map (\<lambda>i. rsmul (c ! i) (unflatten n (A ! i))) [0..<m]"
  have sq: "\<forall>X \<in> set ?Xs. is_mat n n X" by (auto intro!: is_mat_rsmul is_mat_unflatten)
  show ?thesis
  proof (rule nth_equalityI)
    show "length (unflatten n x) = length (rmsum n ?Xs)"
      using is_mat_rmsum[of n ?Xs] by (simp add: unflatten_def is_mat_length)
    fix a assume "a < length (unflatten n x)"
    then have a: "a < n" by (simp add: unflatten_def)
    show "unflatten n x ! a = rmsum n ?Xs ! a"
    proof (rule nth_equalityI)
      show "length (unflatten n x ! a) = length (rmsum n ?Xs ! a)"
        using a is_mat_row[OF is_mat_rmsum a, of ?Xs] by (simp add: unflatten_def)
      fix k assume "k < length (unflatten n x ! a)"
      then have k: "k < n" using a by (simp add: unflatten_def)
      have idx: "a * n + k < n * n" using a k by (rule flat_index)
      have "rmsum n ?Xs ! a ! k = sum_list (map (\<lambda>X. X ! a ! k) ?Xs)"
        using sq a k by (rule rmsum_nth)
      also have "map (\<lambda>X. X ! a ! k) ?Xs = map (\<lambda>i. c ! i * A ! i ! (a * n + k)) [0..<m]"
        using a k by (simp add: rsmul_def unflatten_def)
      also have "sum_list (map (\<lambda>i. c ! i * A ! i ! (a * n + k)) [0..<m]) = rdot c (column A (a * n + k))"
      proof -
        have "map (\<lambda>i. c ! i * column A (a * n + k) ! i) [0..<m] = map (\<lambda>i. c ! i * A ! i ! (a * n + k)) [0..<m]"
          using An by (simp add: column_nth is_mat_length)
        then show ?thesis using lc by (simp only: rdot_len[of c m])
      qed
      also have "\<dots> = x ! (a * n + k)" using x idx by simp
      finally show "unflatten n x ! a ! k = rmsum n ?Xs ! a ! k"
        using a k by (simp add: unflatten_nth)
    qed
  qed
qed

lemma pivots_wf_length_le:
  assumes "pivots_wf m n p"
  shows "length p \<le> n"
proof -
  have d: "distinct (map fst p)" and s: "set (map fst p) \<subseteq> {..<n}"
    using assms by (auto simp: pivots_wf_def)
  have "card (set (map fst p)) = length (map fst p)" using d by (rule distinct_card)
  moreover have "card (set (map fst p)) \<le> card {..<n}" using s by (intro card_mono) auto
  ultimately show ?thesis by simp
qed

lemma ga_ref_step:
  assumes mat: "is_mat m (n * n) mat" and A: "mcontains A mat"
    and wf: "pivots_wf m (n * n) pp" and pre: "rows_exact A pp"
    and gen: "\<forall>x \<in> set A. unflatten n x \<in> generated Ms n" and m0: "0 < m"
  shows "\<exists>R p'. REF mat False True pp = Inr (R, None, Some p') \<and> length pp \<le> length p' \<and>
                 ga_inv Ms n (take (length p') R) p'"
proof -
  from REF_resume_sound[OF mat A wf pre] obtain T p' Sr where
    el: "REF_elim mat pp = Inr (T, p')" and Tm: "is_mat m m T" and wf': "pivots_wf m (n * n) p'"
    and le: "length pp \<le> length p'" and SrT: "mcontains Sr T"
    and ex: "pivots_exact m Sr A p'"
    and RR: "mcontains (rmat_mul Sr A) (fold (set_pivot m) p' (mat_mul T mat))"
    by blast
  have nr: "nrows mat = m" using mat by (rule nrows_is_mat)
  have r'm: "length p' \<le> m" using wf' by (simp add: pivots_wf_def)
  have rows: "\<forall>jp \<in> set p'. snd jp < nrows mat"
    using pivots_wf_snd_less[OF wf'] r'm nr by fastforce
  define R where "R = fold (set_pivot m) p' (mat_mul T mat)"
  have ref: "REF mat False True pp = Inr (R, None, Some p')"
    using REF_of_elim[OF el rows, of False] by (simp add: R_def nr)
  have nc: "ncols mat = n * n" using mat m0 by (rule ncols_is_mat)
  have Rm: "is_mat m (n * n) R"
    unfolding R_def using is_mat_mat_mul[of T m mat] Tm nc
    by (intro is_mat_set_pivot_fold) (simp add: is_mat_length)
  have An: "is_mat m (n * n) A" using A mat by (rule mcontains_is_mat)
  have ncA: "ncols A = n * n" using An m0 by (rule ncols_is_mat)
  have lA: "length A = m" using An by (rule is_mat_length)
  have Srm: "is_mat m m Sr" using SrT Tm by (rule mcontains_is_mat)
  have lSr: "length Sr = m" using Srm by (rule is_mat_length)
  define bs2 where "bs2 = take (length p') (rmat_mul Sr A)"
  have b2m: "is_mat (length p') (n * n) (take (length p') R)"
    using Rm r'm by (auto simp: is_mat_def dest: in_set_takeD)
  have wf2: "pivots_wf (length p') (n * n) p'" using wf' by (simp add: pivots_wf_def)
  have c2: "mcontains bs2 (take (length p') R)"
    using RR unfolding bs2_def mcontains_def R_def by (rule list_all2_takeI)
  have re2: "rows_exact bs2 p'"
    unfolding bs2_def using An lSr wf' ex by (rule pivots_exact_entries)
  have gen2: "\<forall>x \<in> set bs2. unflatten n x \<in> generated Ms n"
  proof
    fix x assume "x \<in> set bs2"
    then obtain i where i: "i < length p'" and x: "x = rmat_mul Sr A ! i"
      using r'm lSr by (auto simp: bs2_def in_set_conv_nth rmat_mul_def)
    have im: "i < m" using i r'm by simp
    have xr: "x = map (\<lambda>j. rdot (Sr ! i) (column A j)) [0..<n * n]"
      using x im lSr ncA by (simp add: rmat_mul_def)
    have "unflatten n x = rmsum n (map (\<lambda>i'. rsmul (Sr ! i ! i') (unflatten n (A ! i'))) [0..<m])"
      using An _ _ _
    proof (rule unflatten_combination)
      show "length (Sr ! i) = m" using Srm im by (rule is_mat_row)
      show "length x = n * n" by (simp add: xr)
      show "\<forall>j<n * n. x ! j = rdot (Sr ! i) (column A j)" by (simp add: xr)
    qed
    moreover have "rmsum n (map (\<lambda>i'. rsmul (Sr ! i ! i') (unflatten n (A ! i'))) [0..<m]) \<in> generated Ms n"
      using gen lA by (intro generated_rmsum) (auto intro!: gen_smul)
    ultimately show "unflatten n x \<in> generated Ms n" by simp
  qed
  have "ga_inv Ms n (take (length p') R) p'"
    unfolding ga_inv_def using b2m wf2 c2 re2 gen2 by blast
  then show ?thesis using ref le by blast
qed

lemma ga_loop_sound:
  "ga_inv Ms n b p \<Longrightarrow> r = length p \<Longrightarrow> \<forall>i \<in> set new. i < r \<Longrightarrow>
     \<exists>b' p'. ga_loop n b p r new = Inr b' \<and> ga_inv Ms n b' p'"
proof (induction n b p r new rule: ga_loop.induct)
  case (1 n b p r new)
  show ?case
  proof (cases "new \<noteq> [] \<and> r < n ^ 2")
    case False
    then have "ga_loop n b p r new = Inr b" by (subst ga_loop.simps) auto
    then show ?thesis using "1.prems"(1) by blast
  next
    case True
    define N where "N = n * n"
    let ?b1 = "b @ concat (map (\<lambda>i. map (\<lambda>j. concat (mat_mul (unflatten n (b ! i)) (unflatten n (b ! j)))) new) [0..<r])"
    from "1.prems"(1) obtain bs where b: "is_mat r N b" and wf: "pivots_wf r N p"
      and bsb: "mcontains bs b" and re: "rows_exact bs p"
      and gen: "\<forall>x \<in> set bs. unflatten n x \<in> generated Ms n"
      by (auto simp: ga_inv_def "1.prems"(2) N_def)
    have lb: "length b = r" using b by (rule is_mat_length)
    have lbs: "length bs = r" using bsb lb by (simp add: mcontains_length)
    have r0: "0 < r" using True "1.prems"(3) by (cases new) auto
    define A where "A = bs @ concat (map (\<lambda>i. map (\<lambda>j. concat (rmat_mul (unflatten n (bs ! i)) (unflatten n (bs ! j)))) new) [0..<r])"
    define m where "m = r + r * length new"
    have bi: "vcontains (bs ! i) (b ! i)" "length (b ! i) = N" "unflatten n (bs ! i) \<in> generated Ms n"
      if "i < r" for i
      using that bsb lb b gen lbs by (simp_all add: mcontains_nth is_mat_row)
    have ui: "mcontains (unflatten n (bs ! i)) (unflatten n (b ! i))" if "i < r" for i
      using bi(1,2)[OF that] unfolding N_def by (rule mcontains_unflatten)
    have lb1: "length ?b1 = m" by (simp add: m_def lb length_concat_map_const)
    have b1m: "is_mat m N ?b1"
      unfolding is_mat_def
    proof (intro conjI ballI)
      show "length ?b1 = m" by (rule lb1)
      fix row assume "row \<in> set ?b1"
      then consider "row \<in> set b"
        | i j where "row = concat (mat_mul (unflatten n (b ! i)) (unflatten n (b ! j)))"
        by auto
      then show "length row = N"
      proof cases
        case 1
        then show ?thesis using b by (simp add: is_mat_def)
      next
        case 2
        have "is_mat n n (mat_mul (unflatten n (b ! i)) (unflatten n (b ! j)))"
          by (intro is_mat_mat_mul_square is_mat_unflatten)
        then show ?thesis using 2 by (simp add: length_concat_is_mat N_def)
      qed
    qed
    have newr: "\<forall>j \<in> set new. j < r" using "1.prems"(3) by simp
    have Ab1: "mcontains A ?b1"
      unfolding mcontains_def A_def
    proof (intro list_all2_appendI list_all2_concat_map)
      show "list_all2 vcontains bs b" using bsb by (simp add: mcontains_def)
      show "list_all2 (\<lambda>i i'. list_all2 vcontains
               (map (\<lambda>j. concat (rmat_mul (unflatten n (bs ! i)) (unflatten n (bs ! j)))) new)
               (map (\<lambda>j. concat (mat_mul (unflatten n (b ! i')) (unflatten n (b ! j)))) new))
             [0..<r] [0..<r]"
        unfolding list_all2_same
      proof
        fix i assume "i \<in> set [0..<r]"
        then have i: "i < r" by simp
        have "vcontains (concat (rmat_mul (unflatten n (bs ! i)) (unflatten n (bs ! j))))
                        (concat (mat_mul (unflatten n (b ! i)) (unflatten n (b ! j))))"
          if "j \<in> set new" for j
        proof -
          have j: "j < r" using that newr by simp
          show ?thesis
            by (intro vcontains_concat mcontains_mat_mul[where m = n and n = n] ui i j is_mat_unflatten)
        qed
        then show "list_all2 vcontains
               (map (\<lambda>j. concat (rmat_mul (unflatten n (bs ! i)) (unflatten n (bs ! j)))) new)
               (map (\<lambda>j. concat (mat_mul (unflatten n (b ! i)) (unflatten n (b ! j)))) new)"
          by (simp add: list_all2_map1 list_all2_map2 list_all2_same)
      qed
    qed
    have genA: "\<forall>x \<in> set A. unflatten n x \<in> generated Ms n"
    proof
      fix x assume "x \<in> set A"
      then consider "x \<in> set bs"
        | i j where "i < r" "j \<in> set new" "x = concat (rmat_mul (unflatten n (bs ! i)) (unflatten n (bs ! j)))"
        by (auto simp: A_def)
      then show "unflatten n x \<in> generated Ms n"
      proof cases
        case 1
        then show ?thesis using gen by simp
      next
        case 2
        then have j: "j < r" using newr by simp
        have "is_mat n n (rmat_mul (unflatten n (bs ! i)) (unflatten n (bs ! j)))"
          by (intro is_mat_rmat_mul_square is_mat_unflatten)
        then have "unflatten n x = rmat_mul (unflatten n (bs ! i)) (unflatten n (bs ! j))"
          using 2 by (simp add: unflatten_concat)
        moreover have "rmat_mul (unflatten n (bs ! i)) (unflatten n (bs ! j)) \<in> generated Ms n"
          using bi(3)[OF 2(1)] bi(3)[OF j] by (rule gen_mul)
        ultimately show ?thesis by simp
      qed
    qed
    have m0: "0 < m" using r0 by (simp add: m_def)
    have wfm: "pivots_wf m N p" using wf by (rule pivots_wf_rows) (simp add: m_def "1.prems"(2))
    have reA: "rows_exact A p"
      unfolding A_def using re _ wf by (rule rows_exact_prefix) (simp add: lbs "1.prems"(2))
    from ga_ref_step[OF b1m[unfolded N_def] Ab1 wfm[unfolded N_def] reA genA m0]
    obtain R p' where ref: "REF ?b1 False True p = Inr (R, None, Some p')"
      and le: "length p \<le> length p'" and inv': "ga_inv Ms n (take (length p') R) p'"
      by blast
    have new': "\<forall>i \<in> set [r..<length p']. i < length p'" by simp
    from "1.IH"[OF True refl ref refl refl refl inv' refl new']
    obtain b' p'' where "ga_loop n (take (length p') R) p' (length p') [r..<length p'] = Inr b'"
      and "ga_inv Ms n b' p''" by blast
    moreover have "ga_loop n b p r new = ga_loop n (take (length p') R) p' (length p') [r..<length p']"
      using True ref by (subst ga_loop.simps) (simp add: Let_def)
    ultimately show ?thesis by auto
  qed
qed

lemma full_rank_spans:
  assumes bs: "is_mat N N bs" and wf: "pivots_wf N N p" and lp: "length p = N"
    and re: "rows_exact bs p" and lx: "length x = N"
  shows "\<exists>c. length c = N \<and> (\<forall>j<N. x ! j = rdot c (column bs j))"
proof -
  let ?js = "map fst p"
  have piv: "bs ! k ! (?js ! k) = 1 \<and> (\<forall>i. k < i \<and> i < N \<longrightarrow> bs ! i ! (?js ! k) = 0)" if "k < N" for k
  proof -
    have k: "k < length p" using that lp by simp
    have mem: "p ! k \<in> set p" using k by simp
    have s: "snd (p ! k) = k" and f: "fst (p ! k) = ?js ! k"
      using pivots_wf_nth[OF wf k] k by (simp_all add: prod_eq_iff)
    from re mem have "bs ! snd (p ! k) ! fst (p ! k) = 1 \<and>
        (\<forall>i. snd (p ! k) < i \<and> i < length p \<longrightarrow> bs ! i ! fst (p ! k) = 0)"
      unfolding rows_exact_def by (rule bspec)
    then show ?thesis unfolding s f lp .
  qed
  have ex: "\<exists>c :: nat \<Rightarrow> real. \<forall>k'<k. (\<Sum>i<k. c i * bs ! i ! (?js ! k')) = x ! (?js ! k')"
    if "k \<le> N" for k
    using that
  proof (induction k)
    case 0
    show ?case by simp
  next
    case (Suc k)
    then obtain c :: "nat \<Rightarrow> real" where c: "\<forall>k'<k. (\<Sum>i<k. c i * bs ! i ! (?js ! k')) = x ! (?js ! k')"
      by auto
    have kN: "k < N" using Suc.prems by simp
    define c' where "c' = c(k := x ! (?js ! k) - (\<Sum>i<k. c i * bs ! i ! (?js ! k)))"
    have same: "(\<Sum>i<k. c' i * bs ! i ! j) = (\<Sum>i<k. c i * bs ! i ! j)" for j
      by (intro sum.cong refl) (simp add: c'_def)
    have "(\<Sum>i<Suc k. c' i * bs ! i ! (?js ! k')) = x ! (?js ! k')" if "k' < Suc k" for k'
    proof (cases "k' = k")
      case True
      have "bs ! k ! (?js ! k) = 1" using piv[OF kN] by simp
      then show ?thesis using True by (simp add: same) (simp add: c'_def)
    next
      case False
      then have k': "k' < k" using that by simp
      then have "k' < N" using kN by simp
      from piv[OF this] k' kN have "bs ! k ! (?js ! k') = 0" by simp
      then show ?thesis using c k' by (simp add: same)
    qed
    then show ?case by blast
  qed
  from ex[of N] obtain c :: "nat \<Rightarrow> real" where
    c: "\<forall>k'<N. (\<Sum>i<N. c i * bs ! i ! (?js ! k')) = x ! (?js ! k')" by auto
  have "set ?js = {..<N}"
  proof (rule card_subset_eq)
    show "finite {..<N}" by simp
    show "set ?js \<subseteq> {..<N}" using wf by (auto simp: pivots_wf_def)
    have "card (set ?js) = length ?js" using wf by (intro distinct_card) (simp add: pivots_wf_def)
    then show "card (set ?js) = card {..<N}" using lp by simp
  qed
  have surj: "\<exists>k'<N. ?js ! k' = j" if "j < N" for j
  proof -
    have "j \<in> set ?js" using \<open>set ?js = {..<N}\<close> that by simp
    then obtain k' where "k' < length ?js" "?js ! k' = j" unfolding in_set_conv_nth by blast
    then show ?thesis using lp by auto
  qed
  have "\<forall>j<N. x ! j = rdot (map c [0..<N]) (column bs j)"
  proof (intro allI impI)
    fix j assume "j < N"
    from surj[OF this] obtain k' where k': "k' < N" "?js ! k' = j" by blast
    have "rdot (map c [0..<N]) (column bs j) = (\<Sum>i<N. map c [0..<N] ! i * column bs j ! i)"
      by (simp add: rdot_sum[of _ N])
    also have "\<dots> = (\<Sum>i<N. c i * bs ! i ! j)"
      using bs by (intro sum.cong refl) (simp add: column_nth is_mat_length)
    also have "\<dots> = x ! j" using c k' by auto
    finally show "x ! j = rdot (map c [0..<N]) (column bs j)" by simp
  qed
  then show ?thesis by (intro exI[of _ "map c [0..<N]"]) simp
qed

lemma ga_inv_full:
  assumes inv: "ga_inv Ms n b p" and full: "length p = n * n"
  shows "generates_full Ms n"
  unfolding generates_full_def
proof (intro allI impI)
  fix X :: rmat assume X: "is_mat n n X"
  define N where "N = n * n"
  from inv obtain bs where b: "is_mat N N b" and wf: "pivots_wf N N p"
    and bsb: "mcontains bs b" and re: "rows_exact bs p"
    and gen: "\<forall>x \<in> set bs. unflatten n x \<in> generated Ms n"
    by (auto simp: ga_inv_def full N_def)
  have bsm: "is_mat N N bs" using bsb b by (rule mcontains_is_mat)
  have lx: "length (concat X) = N" using X by (simp add: length_concat_is_mat N_def)
  from full_rank_spans[OF bsm wf _ re lx] obtain c where
    lc: "length c = N" and x: "\<forall>j<N. concat X ! j = rdot c (column bs j)"
    by (auto simp: full N_def)
  have "unflatten n (concat X) = rmsum n (map (\<lambda>i. rsmul (c ! i) (unflatten n (bs ! i))) [0..<N])"
    using bsm[unfolded N_def] lc[unfolded N_def] lx[unfolded N_def] x[unfolded N_def]
    unfolding N_def by (rule unflatten_combination)
  moreover have "rmsum n (map (\<lambda>i. rsmul (c ! i) (unflatten n (bs ! i))) [0..<N]) \<in> generated Ms n"
    using gen bsm by (intro generated_rmsum) (auto intro!: gen_smul simp: is_mat_length)
  ultimately show "X \<in> generated Ms n" using X by (simp add: unflatten_concat)
qed

text \<open>
  Claim C8, as the code has it.  For a non-empty family of n-by-n matrices of enclosures
  that contains a family of real matrices, \<open>generated_algebra\<close> returns; the loop stops as
  soon as a round adds nothing or the dimension reaches \<open>n\<^sup>2\<close>; the basis has at most
  \<open>n\<^sup>2\<close> elements; and if it has \<open>n\<^sup>2\<close>, then the real family generates the whole
  algebra of n-by-n matrices.
\<close>

theorem generated_algebra_sound:
  assumes "Mats \<noteq> []" and "\<forall>M \<in> set Mats. is_mat n n M" and "list_all2 mcontains Ms Mats"
  shows "(\<exists>b. generated_algebra Mats = Inr b \<and> length b \<le> n ^ 2 \<and>
              (length b = n ^ 2 \<longrightarrow> generates_full Ms n)) \<and>
         (\<forall>b p r. ga_loop n b p r [] = Inr b) \<and>
         (\<forall>b p r new. n ^ 2 \<le> r \<longrightarrow> ga_loop n b p r new = Inr b)"
proof (intro conjI allI impI)
  fix b p r new
  show "ga_loop n b p r [] = Inr b" by (subst ga_loop.simps) simp
  assume "n ^ 2 \<le> r"
  then show "ga_loop n b p r new = Inr b" by (subst ga_loop.simps) simp
next
  obtain M0 rest where Mats: "Mats = M0 # rest" using assms(1) by (cases Mats) auto
  have "is_mat n n M0" using assms(2) Mats by simp
  then have n: "nrows M0 = n" by (rule nrows_is_mat)
  define m where "m = length Mats"
  have m0: "0 < m" using assms(1) by (simp add: m_def)
  have mat: "is_mat m (n * n) (map concat Mats)"
    using assms(2) by (auto simp: is_mat_def m_def length_concat_is_mat)
  have Msq: "\<forall>M \<in> set Ms. is_mat n n M"
  proof
    fix M assume "M \<in> set Ms"
    then obtain k where k: "k < length Ms" "Ms ! k = M" by (auto simp: in_set_conv_nth)
    then have "mcontains M (Mats ! k)" using assms(3) by (auto simp: list_all2_conv_all_nth)
    moreover have "is_mat n n (Mats ! k)"
      using assms(2,3) k by (simp add: list_all2_lengthD)
    ultimately show "is_mat n n M" by (rule mcontains_is_mat)
  qed
  have A: "mcontains (map concat Ms) (map concat Mats)"
    unfolding mcontains_def list_all2_map1 list_all2_map2
    using assms(3) by (rule list_all2_mono) (rule vcontains_concat)
  have wf0: "pivots_wf m (n * n) []" by (simp add: pivots_wf_def)
  have re0: "rows_exact (map concat Ms) []" by (simp add: rows_exact_def)
  have gen0: "\<forall>x \<in> set (map concat Ms). unflatten n x \<in> generated Ms n"
    using Msq by (auto simp: unflatten_concat intro: gen_mat)
  from ga_ref_step[OF mat A wf0 re0 gen0 m0] obtain R p where
    ref: "REF (map concat Mats) False True [] = Inr (R, None, Some p)"
    and inv: "ga_inv Ms n (take (length p) R) p" by blast
  from ga_loop_sound[OF inv refl, of "[0..<length p]"] obtain b' p' where
    loop: "ga_loop n (take (length p) R) p (length p) [0..<length p] = Inr b'"
    and inv': "ga_inv Ms n b' p'" by auto
  have res: "generated_algebra Mats = Inr b'"
    using ref loop by (simp add: generated_algebra_def Mats n Let_def)
  have "is_mat (length p') (n * n) b'" using inv' by (simp add: ga_inv_def)
  then have lb: "length b' = length p'" by (rule is_mat_length)
  have wf': "pivots_wf (length p') (n * n) p'" using inv' by (simp add: ga_inv_def)
  have le: "length b' \<le> n ^ 2"
    using pivots_wf_length_le[OF wf'] lb by (simp add: power2_eq_square)
  have "generates_full Ms n" if "length b' = n ^ 2"
    using inv' by (rule ga_inv_full) (use that lb in \<open>simp add: power2_eq_square\<close>)
  then show "\<exists>b. generated_algebra Mats = Inr b \<and> length b \<le> n ^ 2 \<and>
              (length b = n ^ 2 \<longrightarrow> generates_full Ms n)"
    using res le by blast
qed

lemma upt_0_4: "[0..<4] = [0, Suc 0, 2, 3]" by code_simp

lemma units2_concat: "map concat units2 = units2_flat"
  by code_simp

lemma units2_dims: "nrows units2_flat = 2" "ncols units2_flat = 4" "nrows unit12 = 2"
  by code_simp+

lemma units2_step0: "pivot_step units2_flat 2 0 (identity_matrix 2, []) = (identity_matrix 2, [])"
  by code_simp

lemma units2_step1:
  "pivot_step units2_flat 2 (Suc 0) (identity_matrix 2, []) = (identity_matrix 2, units2_p0)"
  by code_simp

lemma units2_step2:
  "pivot_step units2_flat 2 2 (identity_matrix 2, units2_p0) = (identity_matrix 2, units2_p1)"
  by code_simp

lemma units2_step3:
  "pivot_step units2_flat 2 3 (identity_matrix 2, units2_p1) = (identity_matrix 2, units2_p1)"
  by code_simp

lemma units2_elim: "REF_elim units2_flat [] = Inr (identity_matrix 2, units2_p1)"
  by (simp add: REF_elim_def units2_dims upt_0_4 units2_step0 units2_step1 units2_step2
        units2_step3)

lemma units2_mul: "mat_mul (identity_matrix 2) units2_flat = units2_flat"
  by code_simp

lemma units2_set: "fold (set_pivot 2) units2_p1 units2_flat = units2_flat"
  by code_simp

lemma units2_p1_rows: "\<not> (\<exists>jp \<in> set units2_p1. 2 \<le> snd jp)"
  by code_simp

lemma units2_REF: "REF units2_flat False True [] = Inr (units2_flat, None, Some units2_p1)"
  by (simp only: REF_def units2_elim units2_dims units2_mul units2_set units2_p1_rows Let_def
        sum.case prod.case if_False if_True)

lemma units2_products:
  "units2_flat @ concat (map (\<lambda>i. map (\<lambda>j.
       concat (mat_mul (unflatten 2 (units2_flat ! i)) (unflatten 2 (units2_flat ! j)))) [0..<2])
     [0..<2]) = units2_stack"
  by code_simp

lemma units2_stack_dims: "nrows units2_stack = 6" "ncols units2_stack = 4"
  "length units2_p1 = 2" "length units2_p = 4"
  by code_simp+

lemma units2_replay:
  "replay units2_stack 6 4 2 units2_p1 (identity_matrix 6) = Inr (identity_matrix 6)"
  by code_simp

lemma units2_stack_step0:
  "pivot_step units2_stack 6 0 (identity_matrix 6, units2_p1) = (units2_T1, units2_p2)"
  by code_simp

lemma units2_stack_step1:
  "pivot_step units2_stack 6 (Suc 0) (units2_T1, units2_p2) = (units2_T1, units2_p2)"
  by code_simp

lemma units2_stack_step2:
  "pivot_step units2_stack 6 2 (units2_T1, units2_p2) = (units2_T1, units2_p2)"
  by code_simp

lemma units2_stack_step3:
  "pivot_step units2_stack 6 3 (units2_T1, units2_p2) = (units2_T2, units2_p)"
  by code_simp

lemma units2_stack_elim: "REF_elim units2_stack units2_p1 = Inr (units2_T2, units2_p)"
  by (simp add: REF_elim_def units2_stack_dims upt_0_4 units2_replay units2_stack_step0
        units2_stack_step1 units2_stack_step2 units2_stack_step3)

lemma units2_stack_mul: "mat_mul units2_T2 units2_stack = units2_R"
  by code_simp

lemma units2_stack_set: "fold (set_pivot 6) units2_p units2_R = units2_R"
  by code_simp

lemma units2_p_rows: "\<not> (\<exists>jp \<in> set units2_p. 6 \<le> snd jp)"
  by code_simp

lemma units2_stack_REF: "REF units2_stack False True units2_p1 = Inr (units2_R, None, Some units2_p)"
  by (simp only: REF_def units2_stack_elim units2_stack_dims units2_stack_mul units2_stack_set
        units2_p_rows Let_def sum.case prod.case if_False if_True)

lemma units2_take: "take 2 units2_flat = units2_flat" "take 4 units2_R = units2_b"
  by code_simp+

lemma units2_enter: "([0..<2] \<noteq> [] \<and> (2::nat) < 2\<^sup>2) = True"
  by simp

lemma units2_leave: "([2..<4] \<noteq> [] \<and> (4::nat) < 2\<^sup>2) = False"
  by simp

lemma units2_loop: "ga_loop 2 units2_flat units2_p1 2 [0..<2] = Inr units2_b"
proof -
  have exit: "ga_loop 2 units2_b units2_p 4 [2..<4] = Inr units2_b"
    by (subst ga_loop.simps) (simp only: units2_leave if_False)
  show ?thesis
    by (subst ga_loop.simps)
       (simp only: units2_enter if_True Let_def units2_products units2_stack_REF
          sum.case prod.case option.case units2_stack_dims units2_take exit)
qed

lemma units2_algebra: "generated_algebra units2 = Inr units2_b"
  by (simp only: generated_algebra_def units2_def list.case units2_dims Let_def
        units2_concat[unfolded units2_def] units2_REF sum.case prod.case option.case
        units2_stack_dims units2_take units2_loop)

lemma units2_nonempty: "units2 \<noteq> []"
  by (simp add: units2_def)

lemma units2_shape: "\<forall>M \<in> set units2. is_mat 2 2 M"
  by (simp add: units2_def unit12_def unit21_def is_mat_def)

lemma units2_contains: "list_all2 mcontains [[[0, 1], [0, 0]], [[0, 0], [1, 0]]] units2"
  by (simp add: units2_def unit12_def unit21_def mcontains_def vcontains_def contains_def)

lemma units2_length: "length units2_b = 2\<^sup>2"
  by (simp add: units2_b_def)

theorem generated_algebra_sound_witness:
  "generated_algebra units2 = Inr units2_b \<and> length units2_b = 2\<^sup>2 \<and>
   generates_full [[[0, 1], [0, 0]], [[0, 0], [1, 0]]] 2"
  using generated_algebra_sound[OF units2_nonempty units2_shape units2_contains]
    units2_algebra units2_length by auto

lemma wide1_REF: "\<exists>R. REF (map concat wide1) False True [] = Inr (R, None, Some [])"
proof -
  have "\<forall>j \<in> set [0..<length [Ball 1 2]]. \<not> is_nonzero ([Ball 1 2] ! j)"
    by (simp add: is_nonzero_def)
  from seed_fold_zero[OF this] have "REF_elim [[Ball 1 2]] [] = Inr ([[bone]], [])"
    by (simp add: seed_elim)
  then show ?thesis by (simp add: REF_def wide1_def)
qed

lemma generated_one_by_one: "generates_full Ms (Suc 0)"
  unfolding generates_full_def
proof (intro allI impI)
  fix X :: rmat assume "is_mat (Suc 0) (Suc 0) X"
  then obtain q where "X = [[q]]"
    by (cases X; cases "hd X"; cases "tl (hd X)") (auto simp: is_mat_def)
  then have "X = rsmul q (ridentity (Suc 0))"
    by (simp add: rsmul_def ridentity_def unit_row_def)
  then show "X \<in> generated Ms (Suc 0)" by (simp add: gen_smul gen_one)
qed

text \<open>
  The family consisting of the single 1-by-1 matrix \<open>[1 \<plusminus> 2]\<close> contains the real family
  \<open>[[1]]\<close>, which generates the whole algebra of 1-by-1 matrices; yet the basis returned is
  empty, not of length \<open>1\<^sup>2\<close>.
\<close>

theorem generated_algebra_wide1:
  "generated_algebra wide1 = Inr [] \<and> list_all2 mcontains [[[1]]] wide1 \<and>
   generates_full [[[1]]] (Suc 0) \<and> length ([] :: bvec list) \<noteq> (Suc 0) ^ 2"
proof -
  from wide1_REF obtain R where "REF (map concat wide1) False True [] = Inr (R, None, Some [])"
    by blast
  then have "generated_algebra wide1 = Inr []"
    by (simp add: generated_algebra_def wide1_def ga_loop.simps)
  moreover have "list_all2 mcontains [[[1]]] wide1"
    by (simp add: wide1_def mcontains_def vcontains_def contains_def)
  ultimately show ?thesis using generated_one_by_one by simp
qed

section \<open>The outcomes of the search\<close>



















lemma diag2_orbit: "orbit [diag2] [Ball 1 0, Ball 0 0] False = Inr ([[Ball 1 0, Ball 0 0]], None)"
  by code_simp





end
